theory Spec2Isabelle
  imports Complex_Main "HOL-Library.Word"
begin

unbundle bit_operations_syntax

section \<open>Bytes, spans and errors\<close>

text \<open>
  A byte span \<open>[Begin, End)\<close> is a \<open>string\<close> (a list of 8-bit characters). The byte at
  \<open>End\<close> is the terminator the caller guarantees, so reading at \<open>End\<close> yields the
  character 0. Positions are offsets from \<open>Begin\<close>; the result \<open>None\<close> is the null
  pointer the scanners return when the span is used up and the item is not finished.
\<close>

definition code_of :: "char \<Rightarrow> nat" where
  "code_of c = of_char c"

definition deref :: "string \<Rightarrow> nat \<Rightarrow> char" where
  "deref xs i = (if i < length xs then xs ! i else CHR 0x00)"

definition inrange :: "char \<Rightarrow> char \<Rightarrow> char \<Rightarrow> bool" where
  "inrange lo c hi = (code_of lo \<le> code_of c \<and> code_of c \<le> code_of hi)"

text \<open>The exception objects of JSONParsers.cpp, one constructor for each, and \<open>Undefined\<close>.\<close>

datatype ParserException =
    NotFinished
  | InvalidArrayStart
  | InvalidArraySeparator
  | InvalidObjectStart
  | InvalidKeySeparator
  | InvalidKey
  | InvalidValueSeparator
  | RequiredKeyNotGiven
  | InvalidFloat
  | StringStart
  | StringEscape
  | StringHexDigits
  | StringInvalidCharacter
  | Undefined

text \<open>
  \<open>Undefined\<close> is not an exception of the source. It is the result of the model where
  the C++ has no defined behaviour (a vector indexed out of range, a loop that cannot
  advance); the scanners only get there from states that no sequence of calls on a newly
  constructed parser produces.
\<close>

section \<open>The C library's strtof\<close>

text \<open>
  \<open>strtof\<close> belongs to the C library, not to this repository. It is modelled after
  ISO C (7.22.1.3) in the "C" locale: white space is skipped, then an optional sign, then
  the longest prefix that is a hexadecimal floating constant, a decimal floating
  constant, INF/INFINITY or NAN/NAN(...), letter case ignored. The result is the value
  and the number of characters consumed (the distance from the argument to \<open>end\<close>);
  when no conversion is possible nothing is consumed. The value is the exact number the
  text denotes; rounding to binary32 and overflow are not modelled.
\<close>

datatype fval = Finite rat | Infinity bool | NaN

definition isspace :: "char \<Rightarrow> bool" where
  "isspace c = (c = CHR '' '' \<or> (9 \<le> code_of c \<and> code_of c \<le> 13))"

definition isdigit :: "char \<Rightarrow> bool" where
  "isdigit c = inrange CHR ''0'' c CHR ''9''"

definition isxdigit :: "char \<Rightarrow> bool" where
  "isxdigit c = (isdigit c \<or> inrange CHR ''a'' c CHR ''f'' \<or> inrange CHR ''A'' c CHR ''F'')"

definition tolower :: "char \<Rightarrow> char" where
  "tolower c = (if inrange CHR ''A'' c CHR ''Z'' then char_of (code_of c + 32) else c)"

definition xdigit_val :: "char \<Rightarrow> nat" where
  "xdigit_val c =
     (if isdigit c then code_of c - 48
      else if inrange CHR ''a'' c CHR ''f'' then code_of c - 87
      else code_of c - 55)"

definition digits_val :: "string \<Rightarrow> nat" where
  "digits_val ds = foldl (\<lambda>a c. 10 * a + (code_of c - 48)) 0 ds"

definition xdigits_val :: "string \<Rightarrow> nat" where
  "xdigits_val ds = foldl (\<lambda>a c. 16 * a + xdigit_val c) 0 ds"

definition scale :: "nat \<Rightarrow> int \<Rightarrow> rat" where
  "scale b e = (if 0 \<le> e then of_nat b ^ nat e else 1 / of_nat b ^ nat (- e))"

definition sign_len :: "string \<Rightarrow> nat" where
  "sign_len xs = (if xs \<noteq> [] \<and> (hd xs = CHR ''-'' \<or> hd xs = CHR ''+'') then 1 else 0)"

definition sign_neg :: "string \<Rightarrow> bool" where
  "sign_neg xs = (xs \<noteq> [] \<and> hd xs = CHR ''-'')"

definition exponent_part :: "char \<Rightarrow> char \<Rightarrow> string \<Rightarrow> int \<times> nat" where
  "exponent_part lo up xs =
     (if xs \<noteq> [] \<and> (hd xs = lo \<or> hd xs = up) then
        (let r = tl xs;
             ds = takeWhile isdigit (drop (sign_len r) r)
         in if ds = [] then (0, 0)
            else ((if sign_neg r then - int (digits_val ds) else int (digits_val ds)),
                  1 + sign_len r + length ds))
      else (0, 0))"

definition decimal_body :: "string \<Rightarrow> (rat \<times> nat) option" where
  "decimal_body xs =
     (let ip = takeWhile isdigit xs;
          r = drop (length ip) xs;
          dot = (r \<noteq> [] \<and> hd r = CHR ''.'');
          fp = (if dot then takeWhile isdigit (tl r) else []);
          mlen = length ip + (if dot then 1 + length fp else 0)
      in if ip = [] \<and> fp = [] then None
         else (let (e, elen) = exponent_part CHR ''e'' CHR ''E'' (drop mlen xs)
               in Some (of_nat (digits_val (ip @ fp)) * scale 10 (e - int (length fp)),
                        mlen + elen)))"

definition hex_body :: "string \<Rightarrow> (rat \<times> nat) option" where
  "hex_body xs =
     (if length xs \<ge> 2 \<and> hd xs = CHR ''0'' \<and> (xs ! 1 = CHR ''x'' \<or> xs ! 1 = CHR ''X'') then
        (let ys = drop 2 xs;
             ip = takeWhile isxdigit ys;
             r = drop (length ip) ys;
             dot = (r \<noteq> [] \<and> hd r = CHR ''.'');
             fp = (if dot then takeWhile isxdigit (tl r) else []);
             mlen = length ip + (if dot then 1 + length fp else 0)
         in if ip = [] \<and> fp = [] then None
            else (let (e, elen) = exponent_part CHR ''p'' CHR ''P'' (drop mlen ys)
                  in Some (of_nat (xdigits_val (ip @ fp)) * scale 2 (e - 4 * int (length fp)),
                           2 + mlen + elen)))
      else None)"

definition nchar :: "char \<Rightarrow> bool" where
  "nchar c = (isdigit c \<or> inrange CHR ''a'' c CHR ''z'' \<or> inrange CHR ''A'' c CHR ''Z''
              \<or> c = CHR ''_'')"

definition special_body :: "string \<Rightarrow> (fval \<times> nat) option" where
  "special_body neg_xs =
     (let xs = drop (sign_len neg_xs) neg_xs in
      if map tolower (take 8 xs) = ''infinity'' then Some (Infinity (sign_neg neg_xs), 8)
      else if map tolower (take 3 xs) = ''inf'' then Some (Infinity (sign_neg neg_xs), 3)
      else if map tolower (take 3 xs) = ''nan'' then
        (let r = drop 3 xs; ns = takeWhile nchar (tl r)
         in if r \<noteq> [] \<and> hd r = CHR ''('' \<and> deref r (1 + length ns) = CHR '')''
            then Some (NaN, 3 + 1 + length ns + 1)
            else Some (NaN, 3))
      else None)"

definition strtof :: "string \<Rightarrow> fval \<times> nat" where
  "strtof s =
     (let w = length (takeWhile isspace s);
          r = drop w s;
          sl = sign_len r;
          sg = (if sign_neg r then - 1 else 1);
          b = drop sl r
      in case hex_body b of
           Some (v, n) \<Rightarrow> (Finite (sg * v), w + sl + n)
         | None \<Rightarrow>
             (case decimal_body b of
                Some (v, n) \<Rightarrow> (Finite (sg * v), w + sl + n)
              | None \<Rightarrow>
                  (case special_body r of
                     Some (v, n) \<Rightarrow> (v, w + sl + n)
                   | None \<Rightarrow> (Finite 0, 0))))"

section \<open>ParserPool and the simple value parsers\<close>

text \<open>
  \<open>ParseString\<close> keeps its own fields; \<open>ParseFloat\<close> and \<open>SkipWhitespace\<close> only have
  the \<open>finished\<close> flag of \<open>SimpleValueParser\<close>. \<open>hex_digits\<close> is not initialised by
  the constructor and is always written before it is read; it starts as four zero bytes
  here. The whitespace value slot of the pool is never used and is left out.
\<close>

record ParseString =
  ps_finished :: bool
  ps_count :: int
  ps_hex_digits :: "char list"
  ps_escaped :: bool
  ps_began :: bool

record ParserPool =
  buffer :: string
  float_finished :: bool
  string_parser :: ParseString
  ws_finished :: bool
  float_value :: fval
  string_value :: string

definition ParseString_init :: ParseString where
  "ParseString_init =
     \<lparr> ps_finished = True, ps_count = - 1,
       ps_hex_digits = [CHR 0x00, CHR 0x00, CHR 0x00, CHR 0x00],
       ps_escaped = False, ps_began = False \<rparr>"

definition ParserPool_init :: ParserPool where
  "ParserPool_init =
     \<lparr> buffer = [], float_finished = True, string_parser = ParseString_init,
       ws_finished = True, float_value = Finite 0, string_value = [] \<rparr>"

subsection \<open>ParseFloat::Scan\<close>

definition numch :: "char \<Rightarrow> bool" where
  "numch c = (inrange CHR ''0'' c CHR ''9'' \<or> c = CHR ''.'' \<or> c = CHR ''e'' \<or> c = CHR ''E''
              \<or> c = CHR ''-'' \<or> c = CHR ''+'')"

text \<open>The number of steps of \<open>while (numch(*Begin)) ++Begin\<close>; the terminator stops it.\<close>

fun numrun :: "string \<Rightarrow> nat" where
  "numrun [] = 0"
| "numrun (c # cs) = (if numch c then Suc (numrun cs) else 0)"

definition ParseFloat_Scan ::
  "string \<Rightarrow> ParserPool \<Rightarrow> ParserException + (nat option \<times> ParserPool)" where
  "ParseFloat_Scan xs pool =
     (if buffer pool = [] then
        (let (v, n) = strtof xs;
             pool1 = pool\<lparr>float_value := v\<rparr>
         in if n \<noteq> 0 \<and> n \<noteq> length xs then
              (if numrun (take n xs) \<noteq> n then Inl InvalidFloat
               else Inr (Some n, pool1\<lparr>float_finished := True, buffer := []\<rparr>))
            else
              (let k = numrun xs
               in if k \<noteq> length xs then Inl InvalidFloat
                  else Inr (None, pool1\<lparr>buffer := take k xs, float_finished := False\<rparr>)))
      else
        (let k = numrun xs;
             s = buffer pool @ take k xs
         in if k = length xs then Inr (None, pool\<lparr>buffer := s, float_finished := False\<rparr>)
            else
              (let (v, n) = strtof s
               in if n \<noteq> length s then Inl InvalidFloat
                  else Inr (Some k,
                         pool\<lparr>float_value := v, float_finished := True, buffer := []\<rparr>))))"

subsection \<open>SkipWhitespace::Scan\<close>

definition is_ws :: "char \<Rightarrow> bool" where
  "is_ws c = (c = CHR '' '' \<or> c = CHR 0x09 \<or> c = CHR 0x0A \<or> c = CHR 0x0D)"

fun wsrun :: "string \<Rightarrow> nat" where
  "wsrun [] = 0"
| "wsrun (c # cs) = (if is_ws c then Suc (wsrun cs) else 0)"

definition SkipWhitespace_Scan :: "string \<Rightarrow> ParserPool \<Rightarrow> nat option \<times> ParserPool" where
  "SkipWhitespace_Scan xs pool =
     (let k = wsrun xs
      in if k \<noteq> length xs then (Some k, pool\<lparr>ws_finished := True, buffer := []\<rparr>)
         else (None, pool\<lparr>ws_finished := False\<rparr>))"

subsection \<open>ParseString::scan and ParseString::Scan\<close>

text \<open>
  The value of the four collected hexadecimal digits, or \<open>StringHexDigits\<close> at the
  first character that is not one (the \<open>for\<close> loop over \<open>hex_digits\<close>).
\<close>

fun hex_value :: "char list \<Rightarrow> int \<Rightarrow> ParserException + int" where
  "hex_value [] v = Inr v"
| "hex_value (h # hs) v =
     (if inrange CHR ''0'' h CHR ''9'' then
        hex_value hs (push_bit 4 v + (int (code_of h) - int (code_of CHR ''0'')))
      else if inrange CHR ''a'' h CHR ''f'' then
        hex_value hs (push_bit 4 v + (10 + int (code_of h) - int (code_of CHR ''a'')))
      else if inrange CHR ''A'' h CHR ''F'' then
        hex_value hs (push_bit 4 v + (10 + int (code_of h) - int (code_of CHR ''A'')))
      else Inl StringHexDigits)"

text \<open>The bytes pushed to the buffer for a code unit: \<open>static_cast<char>\<close> keeps 8 bits.\<close>

definition utf8 :: "int \<Rightarrow> char list" where
  "utf8 v =
     (if v < 0x80 then [char_of v]
      else if v < 0x800 then
        [char_of (0xc0 OR (drop_bit 6 v AND 0x1f)), char_of (0x80 OR (v AND 0x3f))]
      else
        [char_of (0xe0 OR (drop_bit 12 v AND 0xf)),
         char_of (0x80 OR (drop_bit 6 v AND 0x3f)),
         char_of (0x80 OR (v AND 0x3f))])"

definition ParseString_scan ::
  "char \<Rightarrow> ParserPool \<Rightarrow> ParserException + (bool \<times> ParserPool)" where
  "ParseString_scan c pool =
     (let ps = string_parser pool in
      if \<not> ps_escaped ps \<and> ps_count ps = - 1 then
        (if c \<noteq> CHR 0x5C then
           (if c \<noteq> CHR 0x22 then
              (if 31 < code_of c then
                 (let b = buffer pool @ [c]
                  in if length b > length (string_value pool)
                     then Inr (False, pool\<lparr>string_value := string_value pool @ b, buffer := []\<rparr>)
                     else Inr (False, pool\<lparr>buffer := b\<rparr>))
               else Inl StringInvalidCharacter)
            else Inr (True, pool\<lparr>string_value := string_value pool @ buffer pool\<rparr>))
         else Inr (False, pool\<lparr>string_parser := ps\<lparr>ps_escaped := True\<rparr>\<rparr>))
      else if ps_count ps \<noteq> - 1 then
        (let hd' = (ps_hex_digits ps)[nat (ps_count ps) := c];
             cnt = ps_count ps + 1
         in if cnt < 4
            then Inr (False, pool\<lparr>string_parser := ps\<lparr>ps_hex_digits := hd', ps_count := cnt\<rparr>\<rparr>)
            else
              (case hex_value (take 4 hd') 0 of
                 Inl e \<Rightarrow> Inl e
               | Inr v \<Rightarrow>
                   Inr (False, pool\<lparr>buffer := buffer pool @ utf8 v,
                          string_parser := ps\<lparr>ps_hex_digits := hd', ps_count := - 1\<rparr>\<rparr>)))
      else
        (let unesc = (\<lambda>b. Inr (False, pool\<lparr>buffer := buffer pool @ [b],
                                     string_parser := ps\<lparr>ps_escaped := False\<rparr>\<rparr>))
         in if c = CHR 0x22 \<or> c = CHR ''/'' \<or> c = CHR 0x5C then unesc c
            else if c = CHR ''b'' then unesc (CHR 0x08)
            else if c = CHR ''f'' then unesc (CHR 0x0C)
            else if c = CHR ''n'' then unesc (CHR 0x0A)
            else if c = CHR ''r'' then unesc (CHR 0x0D)
            else if c = CHR ''t'' then unesc (CHR 0x09)
            else if c = CHR ''u''
              then Inr (False, pool\<lparr>string_parser := ps\<lparr>ps_count := 0, ps_escaped := False\<rparr>\<rparr>)
            else Inl StringEscape))"

text \<open>
  The \<open>while (Begin != End)\<close> loop of \<open>ParseString::Scan\<close>: the first argument is the
  rest of the span, the second the position of its first byte.
\<close>

fun ParseString_loop ::
  "string \<Rightarrow> nat \<Rightarrow> ParserPool \<Rightarrow> ParserException + (nat option \<times> ParserPool)" where
  "ParseString_loop [] i pool =
     Inr (None, pool\<lparr>string_parser := (string_parser pool)\<lparr>ps_finished := False\<rparr>\<rparr>)"
| "ParseString_loop (c # cs) i pool =
     (case ParseString_scan c pool of
        Inl e \<Rightarrow> Inl e
      | Inr (True, pool1) \<Rightarrow>
          Inr (Some (i + 1),
               pool1\<lparr>string_parser := (string_parser pool1)\<lparr>ps_began := False, ps_finished := True\<rparr>,
                     buffer := []\<rparr>)
      | Inr (False, pool1) \<Rightarrow> ParseString_loop cs (i + 1) pool1)"

definition ParseString_Scan ::
  "string \<Rightarrow> ParserPool \<Rightarrow> ParserException + (nat option \<times> ParserPool)" where
  "ParseString_Scan xs pool =
     (if \<not> ps_began (string_parser pool) then
        (if deref xs 0 \<noteq> CHR 0x22 then Inl StringStart
         else ParseString_loop (drop 1 xs) 1
                (pool\<lparr>string_value := [],
                      string_parser := (string_parser pool)\<lparr>ps_began := True\<rparr>\<rparr>))
      else ParseString_loop xs 0 pool)"

section \<open>ParseArray\<close>

text \<open>
  Decoded values. \<open>ParseArray<Parser>\<close> is instantiated with the two value parsers
  of the pool, named by \<open>leaf\<close>; \<open>leaf_Finished\<close>, \<open>leaf_Scan\<close> and \<open>leaf_value\<close> are
  \<open>p.Finished()\<close>, \<open>p.Scan\<close> and the value slot of the pool for that parser.
\<close>

datatype jvalue = JFloat fval | JString string | JArray "jvalue list"

datatype leaf = LFloat | LString

definition leaf_Finished :: "leaf \<Rightarrow> ParserPool \<Rightarrow> bool" where
  "leaf_Finished P pool =
     (case P of LFloat \<Rightarrow> float_finished pool | LString \<Rightarrow> ps_finished (string_parser pool))"

definition leaf_Scan ::
  "leaf \<Rightarrow> string \<Rightarrow> ParserPool \<Rightarrow> ParserException + (nat option \<times> ParserPool)" where
  "leaf_Scan P xs pool =
     (case P of LFloat \<Rightarrow> ParseFloat_Scan xs pool | LString \<Rightarrow> ParseString_Scan xs pool)"

definition leaf_value :: "leaf \<Rightarrow> ParserPool \<Rightarrow> jvalue" where
  "leaf_value P pool =
     (case P of LFloat \<Rightarrow> JFloat (float_value pool) | LString \<Rightarrow> JString (string_value pool))"

record ParseArray =
  pa_out :: "jvalue list"
  pa_began :: bool
  pa_had_comma :: bool
  pa_finished :: bool

definition ParseArray_init :: ParseArray where
  "ParseArray_init =
     \<lparr> pa_out = [], pa_began = False, pa_had_comma = False, pa_finished = True \<rparr>"

definition ParseArray_Swap :: "ParseArray \<Rightarrow> ParserException + (jvalue list \<times> ParseArray)" where
  "ParseArray_Swap a =
     (if \<not> pa_finished a then Inl NotFinished else Inr (pa_out a, a\<lparr>pa_out := []\<rparr>))"

text \<open>
  What a stretch of a \<open>Scan\<close> body does: throw, return from \<open>Scan\<close>, or go on at a
  position with the state it has reached.
\<close>

datatype 's flow = Throw ParserException | Return "nat option" 's | Continue nat 's

definition thenDo :: "'s flow \<Rightarrow> (nat \<Rightarrow> 's \<Rightarrow> 's flow) \<Rightarrow> 's flow" where
  "thenDo r f = (case r of Continue b s \<Rightarrow> f b s | Throw e \<Rightarrow> Throw e | Return p s \<Rightarrow> Return p s)"

text \<open>One pass through the body of \<open>while (Begin != End)\<close> in \<open>ParseArray::Scan\<close>.\<close>

definition ParseArray_separator ::
  "string \<Rightarrow> nat \<Rightarrow> ParseArray \<Rightarrow> ParserPool \<Rightarrow> (ParseArray \<times> ParserPool) flow" where
  "ParseArray_separator xs b a pool =
     (if pa_out a \<noteq> [] \<and> \<not> pa_had_comma a then
        (if deref xs b = CHR '','' then Continue (b + 1) (a\<lparr>pa_had_comma := True\<rparr>, pool)
         else
           (case SkipWhitespace_Scan (drop b xs) pool of
              (None, pool1) \<Rightarrow> Return None (a\<lparr>pa_finished := False\<rparr>, pool1)
            | (Some k, pool1) \<Rightarrow>
                if deref xs (b + k) = CHR '']''
                then Return (Some (b + k + 1)) (a\<lparr>pa_began := False, pa_finished := True\<rparr>, pool1)
                else if deref xs (b + k) \<noteq> CHR '',''
                then Throw InvalidArraySeparator
                else Continue (b + k + 1) (a\<lparr>pa_had_comma := True\<rparr>, pool1)))
      else if pa_out a = [] then
        (case SkipWhitespace_Scan (drop b xs) pool of
           (None, pool1) \<Rightarrow> Return None (a\<lparr>pa_finished := False\<rparr>, pool1)
         | (Some k, pool1) \<Rightarrow>
             if deref xs (b + k) = CHR '']''
             then Return (Some (b + k + 1)) (a\<lparr>pa_began := False, pa_finished := True\<rparr>, pool1)
             else Continue (b + k) (a, pool1))
      else Continue b (a, pool))"

definition ParseArray_item ::
  "leaf \<Rightarrow> string \<Rightarrow> nat \<Rightarrow> ParseArray \<times> ParserPool \<Rightarrow> (ParseArray \<times> ParserPool) flow" where
  "ParseArray_item P xs b s =
     (case s of (a, pool) \<Rightarrow>
        (case SkipWhitespace_Scan (drop b xs) pool of
           (None, pool1) \<Rightarrow> Return None (a\<lparr>pa_finished := False\<rparr>, pool1)
         | (Some k, pool1) \<Rightarrow>
             (case leaf_Scan P (drop (b + k) xs) pool1 of
                Inl e \<Rightarrow> Throw e
              | Inr (None, pool2) \<Rightarrow> Return None (a\<lparr>pa_finished := False\<rparr>, pool2)
              | Inr (Some n, pool2) \<Rightarrow>
                  Continue (b + k + n)
                    (a\<lparr>pa_out := pa_out a @ [leaf_value P pool2], pa_had_comma := False\<rparr>,
                     pool2))))"

definition ParseArray_body ::
  "leaf \<Rightarrow> string \<Rightarrow> nat \<Rightarrow> ParseArray \<Rightarrow> ParserPool \<Rightarrow> (ParseArray \<times> ParserPool) flow" where
  "ParseArray_body P xs b a pool =
     thenDo (ParseArray_separator xs b a pool) (ParseArray_item P xs)"

text \<open>
  The loop only goes round again after moving forward: the item scan starts right
  after the skipper has cleared the buffer, and a scan of a new item consumes a byte.
\<close>

lemma ParseFloat_Scan_progress:
  "buffer pool = [] \<Longrightarrow> ParseFloat_Scan xs pool = Inr (Some n, pool') \<Longrightarrow> 0 < n"
  by (auto simp: ParseFloat_Scan_def Let_def split: prod.splits if_splits)

lemma ParseString_loop_progress:
  "ParseString_loop cs i pool = Inr (Some n, pool') \<Longrightarrow> i < n"
proof (induction cs arbitrary: i pool)
  case Nil
  then show ?case by simp
next
  case (Cons c cs)
  show ?case
  proof (cases "ParseString_scan c pool")
    case (Inl e)
    with Cons.prems show ?thesis by simp
  next
    case (Inr r)
    obtain fin pool1 where r: "r = (fin, pool1)" by (cases r)
    show ?thesis
    proof (cases fin)
      case True
      with Cons.prems Inr r show ?thesis by auto
    next
      case False
      with Cons.prems Inr r have "ParseString_loop cs (i + 1) pool1 = Inr (Some n, pool')"
        by simp
      from Cons.IH[OF this] show ?thesis by simp
    qed
  qed
qed

lemma ParseString_Scan_progress:
  "ParseString_Scan xs pool = Inr (Some n, pool') \<Longrightarrow> 0 < n"
  by (auto simp: ParseString_Scan_def split: if_splits dest: ParseString_loop_progress)

lemma SkipWhitespace_Scan_buffer:
  "SkipWhitespace_Scan xs pool = (Some k, pool') \<Longrightarrow> buffer pool' = []"
  by (auto simp: SkipWhitespace_Scan_def Let_def split: if_splits)

lemma leaf_Scan_progress:
  "buffer pool = [] \<Longrightarrow> leaf_Scan P xs pool = Inr (Some n, pool') \<Longrightarrow> 0 < n"
  by (cases P) (auto simp: leaf_Scan_def dest: ParseFloat_Scan_progress ParseString_Scan_progress)

lemma ParseArray_body_progress:
  "ParseArray_body P xs b a pool = Continue b' s \<Longrightarrow> b < b'"
  unfolding ParseArray_body_def ParseArray_separator_def ParseArray_item_def thenDo_def
  by (auto split: if_splits prod.splits option.splits sum.splits flow.splits
           dest!: SkipWhitespace_Scan_buffer leaf_Scan_progress)

text \<open>
  \<open>while (Begin != End)\<close>: \<open>Begin\<close> never passes \<open>End\<close>, so the test is \<open>b < length xs\<close>.
\<close>

function ParseArray_loop ::
  "leaf \<Rightarrow> string \<Rightarrow> nat \<Rightarrow> ParseArray \<Rightarrow> ParserPool
   \<Rightarrow> ParserException + (nat option \<times> ParseArray \<times> ParserPool)" where
  "ParseArray_loop P xs b a pool =
     (if b < length xs then
        (case ParseArray_body P xs b a pool of
           Throw e \<Rightarrow> Inl e
         | Return r s \<Rightarrow> Inr (r, s)
         | Continue b' s \<Rightarrow> ParseArray_loop P xs b' (fst s) (snd s))
      else Inr (None, a\<lparr>pa_finished := False\<rparr>, pool))"
  by pat_completeness auto
termination
  by (relation "measure (\<lambda>(P, xs, b, a, pool). length xs - b)")
     (auto dest: ParseArray_body_progress)

declare ParseArray_loop.simps [simp del]

definition ParseArray_Scan ::
  "leaf \<Rightarrow> string \<Rightarrow> ParseArray \<Rightarrow> ParserPool
   \<Rightarrow> ParserException + (nat option \<times> ParseArray \<times> ParserPool)" where
  "ParseArray_Scan P xs a pool =
     (if \<not> leaf_Finished P pool then
        (case leaf_Scan P xs pool of
           Inl e \<Rightarrow> Inl e
         | Inr (None, pool1) \<Rightarrow> Inr (None, a\<lparr>pa_finished := False\<rparr>, pool1)
         | Inr (Some n, pool1) \<Rightarrow>
             ParseArray_loop P xs n
               (a\<lparr>pa_out := pa_out a @ [leaf_value P pool1], pa_had_comma := False\<rparr>) pool1)
      else if \<not> pa_began a then
        (if deref xs 0 \<noteq> CHR ''['' then Inl InvalidArrayStart
         else ParseArray_loop P xs 1 (a\<lparr>pa_began := True, pa_had_comma := False\<rparr>) pool)
      else ParseArray_loop P xs 0 a pool)"

section \<open>ParseContainerArray\<close>

text \<open>
  \<open>ParseContainerArray<ParseArray<Parser>>\<close>: the element parser \<open>p\<close> is a member
  of the combinator, and each finished element is taken out of it with \<open>p.Swap\<close>.
\<close>

record ParseContainerArray =
  pc_p :: ParseArray
  pc_out :: "jvalue list"
  pc_began :: bool
  pc_had_comma :: bool
  pc_finished :: bool

definition ParseContainerArray_init :: ParseContainerArray where
  "ParseContainerArray_init =
     \<lparr> pc_p = ParseArray_init, pc_out = [], pc_began = False, pc_had_comma = False,
       pc_finished = True \<rparr>"

definition ParseContainerArray_Swap ::
  "ParseContainerArray \<Rightarrow> ParserException + (jvalue list \<times> ParseContainerArray)" where
  "ParseContainerArray_Swap a =
     (if \<not> pc_finished a then Inl NotFinished else Inr (pc_out a, a\<lparr>pc_out := []\<rparr>))"

text \<open>\<open>out.push_back(typename Parser::Type()); p.Swap(out.back()); had_comma = false;\<close>\<close>

definition ParseContainerArray_push ::
  "nat \<Rightarrow> ParseContainerArray \<Rightarrow> ParseArray \<Rightarrow> ParserPool
   \<Rightarrow> (ParseContainerArray \<times> ParserPool) flow" where
  "ParseContainerArray_push b a p1 pool =
     (case ParseArray_Swap p1 of
        Inl e \<Rightarrow> Throw e
      | Inr (v, p2) \<Rightarrow>
          Continue b (a\<lparr>pc_p := p2, pc_out := pc_out a @ [JArray v], pc_had_comma := False\<rparr>,
                      pool))"

definition ParseContainerArray_separator ::
  "string \<Rightarrow> nat \<Rightarrow> ParseContainerArray \<Rightarrow> ParserPool
   \<Rightarrow> (ParseContainerArray \<times> ParserPool) flow" where
  "ParseContainerArray_separator xs b a pool =
     (if pc_out a \<noteq> [] \<and> \<not> pc_had_comma a then
        (if deref xs b = CHR '','' then Continue (b + 1) (a\<lparr>pc_had_comma := True\<rparr>, pool)
         else
           (case SkipWhitespace_Scan (drop b xs) pool of
              (None, pool1) \<Rightarrow> Return None (a\<lparr>pc_finished := False\<rparr>, pool1)
            | (Some k, pool1) \<Rightarrow>
                if deref xs (b + k) = CHR '']''
                then Return (Some (b + k + 1)) (a\<lparr>pc_began := False, pc_finished := True\<rparr>, pool1)
                else if deref xs (b + k) \<noteq> CHR '',''
                then Throw InvalidArraySeparator
                else Continue (b + k + 1) (a\<lparr>pc_had_comma := True\<rparr>, pool1)))
      else if pc_out a = [] then
        (case SkipWhitespace_Scan (drop b xs) pool of
           (None, pool1) \<Rightarrow> Return None (a\<lparr>pc_finished := False\<rparr>, pool1)
         | (Some k, pool1) \<Rightarrow>
             if deref xs (b + k) = CHR '']''
             then Return (Some (b + k + 1)) (a\<lparr>pc_began := False, pc_finished := True\<rparr>, pool1)
             else Continue (b + k) (a, pool1))
      else Continue b (a, pool))"

definition ParseContainerArray_item ::
  "leaf \<Rightarrow> string \<Rightarrow> nat \<Rightarrow> ParseContainerArray \<times> ParserPool
   \<Rightarrow> (ParseContainerArray \<times> ParserPool) flow" where
  "ParseContainerArray_item P xs b s =
     (case s of (a, pool) \<Rightarrow>
        (case SkipWhitespace_Scan (drop b xs) pool of
           (None, pool1) \<Rightarrow> Return None (a\<lparr>pc_finished := False\<rparr>, pool1)
         | (Some k, pool1) \<Rightarrow>
             (case ParseArray_Scan P (drop (b + k) xs) (pc_p a) pool1 of
                Inl e \<Rightarrow> Throw e
              | Inr (None, p1, pool2) \<Rightarrow> Return None (a\<lparr>pc_p := p1, pc_finished := False\<rparr>, pool2)
              | Inr (Some n, p1, pool2) \<Rightarrow> ParseContainerArray_push (b + k + n) a p1 pool2)))"

definition ParseContainerArray_body ::
  "leaf \<Rightarrow> string \<Rightarrow> nat \<Rightarrow> ParseContainerArray \<Rightarrow> ParserPool
   \<Rightarrow> (ParseContainerArray \<times> ParserPool) flow" where
  "ParseContainerArray_body P xs b a pool =
     thenDo (ParseContainerArray_separator xs b a pool) (ParseContainerArray_item P xs)"

text \<open>A finished array scan has consumed its closing bracket.\<close>

lemma ParseArray_body_Return:
  "ParseArray_body P xs b a pool = Return (Some n) s \<Longrightarrow> b < n"
  unfolding ParseArray_body_def ParseArray_separator_def ParseArray_item_def thenDo_def
  by (auto split: if_splits prod.splits option.splits sum.splits flow.splits)

lemma ParseArray_loop_progress:
  "ParseArray_loop P xs b a pool = Inr (Some n, s) \<Longrightarrow> b < n"
proof (induction P xs b a pool rule: ParseArray_loop.induct)
  case (1 P xs b a pool)
  note run0 = "1.prems"[unfolded ParseArray_loop.simps[of P xs b a pool]]
  show ?case
  proof (cases "ParseArray_body P xs b a pool")
    case (Throw e)
    with run0 show ?thesis by (simp split: if_splits)
  next
    case (Return r s')
    with run0 have "r = Some n" and "b < length xs" by (auto split: if_splits)
    with Return show ?thesis by (auto dest: ParseArray_body_Return)
  next
    case (Continue b' s')
    with run0 have lt: "b < length xs"
      and run: "ParseArray_loop P xs b' (fst s') (snd s') = Inr (Some n, s)"
      by (auto split: if_splits)
    from "1.IH"[OF lt Continue run] have "b' < n" .
    moreover from Continue have "b < b'" by (rule ParseArray_body_progress)
    ultimately show ?thesis by simp
  qed
qed

lemma ParseArray_Scan_progress:
  "ParseArray_Scan P xs a pool = Inr (Some n, s) \<Longrightarrow> 0 < n"
  unfolding ParseArray_Scan_def
  by (auto split: if_splits sum.splits prod.splits option.splits dest: ParseArray_loop_progress)

lemma ParseContainerArray_body_progress:
  "ParseContainerArray_body P xs b a pool = Continue b' s \<Longrightarrow> b < b'"
  unfolding ParseContainerArray_body_def ParseContainerArray_separator_def
    ParseContainerArray_item_def ParseContainerArray_push_def thenDo_def
  by (auto split: if_splits prod.splits option.splits sum.splits flow.splits
           dest!: ParseArray_Scan_progress)

function ParseContainerArray_loop ::
  "leaf \<Rightarrow> string \<Rightarrow> nat \<Rightarrow> ParseContainerArray \<Rightarrow> ParserPool
   \<Rightarrow> ParserException + (nat option \<times> ParseContainerArray \<times> ParserPool)" where
  "ParseContainerArray_loop P xs b a pool =
     (if b < length xs then
        (case ParseContainerArray_body P xs b a pool of
           Throw e \<Rightarrow> Inl e
         | Return r s \<Rightarrow> Inr (r, s)
         | Continue b' s \<Rightarrow> ParseContainerArray_loop P xs b' (fst s) (snd s))
      else Inr (None, a\<lparr>pc_finished := False\<rparr>, pool))"
  by pat_completeness auto
termination
  by (relation "measure (\<lambda>(P, xs, b, a, pool). length xs - b)")
     (auto dest: ParseContainerArray_body_progress)

declare ParseContainerArray_loop.simps [simp del]

definition ParseContainerArray_Scan ::
  "leaf \<Rightarrow> string \<Rightarrow> ParseContainerArray \<Rightarrow> ParserPool
   \<Rightarrow> ParserException + (nat option \<times> ParseContainerArray \<times> ParserPool)" where
  "ParseContainerArray_Scan P xs a pool =
     (if \<not> pa_finished (pc_p a) then
        (case ParseArray_Scan P xs (pc_p a) pool of
           Inl e \<Rightarrow> Inl e
         | Inr (None, p1, pool1) \<Rightarrow> Inr (None, a\<lparr>pc_p := p1, pc_finished := False\<rparr>, pool1)
         | Inr (Some n, p1, pool1) \<Rightarrow>
             (case ParseContainerArray_push n a p1 pool1 of
                Throw e \<Rightarrow> Inl e
              | Return r s \<Rightarrow> Inr (r, s)
              | Continue b s \<Rightarrow> ParseContainerArray_loop P xs b (fst s) (snd s)))
      else if \<not> pc_began a then
        (if deref xs 0 \<noteq> CHR ''['' then Inl InvalidArrayStart
         else ParseContainerArray_loop P xs 1 (a\<lparr>pc_began := True, pc_had_comma := False\<rparr>) pool)
      else ParseContainerArray_loop P xs 0 a pool)"

section \<open>ParseObject\<close>

text \<open>
  A \<open>ScanningKeyValue\<close> is one field of the \<open>KeyValues\<close> template argument: its key
  and whether it is required are fixed by the class (\<open>KeyValue\<close>, \<open>RequiredKeyValue\<close>,
  \<open>KeyContainerValue\<close>, \<open>RequiredKeyContainerValue\<close>); \<open>given\<close> and, for the container
  classes, the parser \<open>p\<close> are its state. A \<open>KeyValue\<close> has no parser of its own and
  uses the one of the pool.
\<close>

datatype Parser =
    PoolParser leaf
  | ArrayParser leaf ParseArray
  | ContainerArrayParser leaf ParseContainerArray

record ScanningKeyValue =
  Key :: string
  Required :: bool
  kv_given :: bool
  kv_p :: Parser

definition KeyValue :: "string \<Rightarrow> leaf \<Rightarrow> ScanningKeyValue" where
  "KeyValue k P = \<lparr> Key = k, Required = False, kv_given = False, kv_p = PoolParser P \<rparr>"

definition RequiredKeyValue :: "string \<Rightarrow> leaf \<Rightarrow> ScanningKeyValue" where
  "RequiredKeyValue k P = \<lparr> Key = k, Required = True, kv_given = False, kv_p = PoolParser P \<rparr>"

definition KeyContainerValue :: "string \<Rightarrow> Parser \<Rightarrow> ScanningKeyValue" where
  "KeyContainerValue k p = \<lparr> Key = k, Required = False, kv_given = False, kv_p = p \<rparr>"

definition RequiredKeyContainerValue :: "string \<Rightarrow> Parser \<Rightarrow> ScanningKeyValue" where
  "RequiredKeyContainerValue k p = \<lparr> Key = k, Required = True, kv_given = False, kv_p = p \<rparr>"

text \<open>
  \<open>Value<Parser>\<close>: the \<open>given\<close> flag of \<open>ValueStore\<close> and a value of the parser's
  type. A float member is not initialised by the constructor; it starts as 0 here.
\<close>

record ValueStore =
  vs_given :: bool
  vs_value :: jvalue

definition Value :: "Parser \<Rightarrow> ValueStore" where
  "Value p =
     \<lparr> vs_given = False,
       vs_value = (case p of
                     PoolParser LFloat \<Rightarrow> JFloat (Finite 0)
                   | PoolParser LString \<Rightarrow> JString []
                   | ArrayParser P a \<Rightarrow> JArray []
                   | ContainerArrayParser P a \<Rightarrow> JArray []) \<rparr>"

datatype State =
    NotStarted | PreKey | ExpectKey | PreColon | ExpectColon
  | PreValue | ExpectValue | PreComma | ExpectComma

record ParseObject =
  po_parsers :: "ScanningKeyValue list"
  po_out :: "ValueStore list"
  po_activating :: int
  po_active :: int
  po_state :: State
  po_finished :: bool

definition ParseObject_init :: "ScanningKeyValue list \<Rightarrow> ParseObject" where
  "ParseObject_init kvs =
     \<lparr> po_parsers = kvs, po_out = map (\<lambda>f. Value (kv_p f)) kvs,
       po_activating = - 1, po_active = - 1, po_state = NotStarted, po_finished = True \<rparr>"

text \<open>\<open>ParseObject::Swap\<close> hands out the record and puts a new one in its place.\<close>

definition ParseObject_Swap :: "ParseObject \<Rightarrow> ValueStore list \<times> ParseObject" where
  "ParseObject_Swap ob =
     (po_out ob, ob\<lparr>po_out := map (\<lambda>f. Value (kv_p f)) (po_parsers ob)\<rparr>)"

text \<open>\<open>strcmp(a, b) == 0\<close> on \<open>c_str()\<close>: both are read up to their first zero byte.\<close>

definition c_str :: "string \<Rightarrow> string" where
  "c_str s = takeWhile (\<lambda>c. c \<noteq> CHR 0x00) s"

fun setActivating :: "ScanningKeyValue list \<Rightarrow> string \<Rightarrow> nat \<Rightarrow> nat option" where
  "setActivating [] Incoming k = None"
| "setActivating (f # fs) Incoming k =
     (if c_str Incoming = c_str (Key f) then Some k else setActivating fs Incoming (k + 1))"

definition checkPassed ::
  "nat \<Rightarrow> ParseObject \<Rightarrow> ParserPool \<Rightarrow> (ParseObject \<times> ParserPool) flow" where
  "checkPassed ptr ob pool =
     (if list_ex (\<lambda>k. Required (po_parsers ob ! k) \<and> \<not> vs_given (po_out ob ! k))
           [0 ..< length (po_out ob)]
      then Throw RequiredKeyNotGiven
      else Return (Some ptr)
             (ob\<lparr>po_state := NotStarted, po_activating := - 1, po_active := - 1,
                 po_finished := True\<rparr>, pool))"

text \<open>\<open>parsers.Scanner(Index, Pool).Scan(Begin, End, Pool)\<close>; \<open>Scanner\<close> sets \<open>given\<close>.\<close>

definition Scanner_Scan ::
  "ScanningKeyValue \<Rightarrow> string \<Rightarrow> ParserPool
   \<Rightarrow> ParserException + (nat option \<times> ScanningKeyValue \<times> ParserPool)" where
  "Scanner_Scan kv xs pool =
     (let kv1 = kv\<lparr>kv_given := True\<rparr> in
      case kv_p kv of
        PoolParser P \<Rightarrow>
          (case leaf_Scan P xs pool of
             Inl e \<Rightarrow> Inl e
           | Inr (r, pool1) \<Rightarrow> Inr (r, kv1, pool1))
      | ArrayParser P a \<Rightarrow>
          (case ParseArray_Scan P xs a pool of
             Inl e \<Rightarrow> Inl e
           | Inr (r, a1, pool1) \<Rightarrow> Inr (r, kv1\<lparr>kv_p := ArrayParser P a1\<rparr>, pool1))
      | ContainerArrayParser P a \<Rightarrow>
          (case ParseContainerArray_Scan P xs a pool of
             Inl e \<Rightarrow> Inl e
           | Inr (r, a1, pool1) \<Rightarrow> Inr (r, kv1\<lparr>kv_p := ContainerArrayParser P a1\<rparr>, pool1)))"

text \<open>
  \<open>std::swap(dst->value, std::get<Index>(Pool.Value))\<close>: the old value of the
  destination goes to the pool; it has the parser's type, as \<open>dst\<close> is a \<open>Value<Parser>\<close>.
\<close>

definition pool_swap :: "leaf \<Rightarrow> jvalue \<Rightarrow> ParserPool \<Rightarrow> ParserPool" where
  "pool_swap P old pool =
     (case (P, old) of
        (LFloat, JFloat v) \<Rightarrow> pool\<lparr>float_value := v\<rparr>
      | (LString, JString t) \<Rightarrow> pool\<lparr>string_value := t\<rparr>
      | _ \<Rightarrow> pool)"

text \<open>\<open>KeyValue::Swap(ValueStore*, ParserPool&)\<close> and \<open>KeyContainerValue::Swap\<close>.\<close>

definition KeyValue_Swap ::
  "ScanningKeyValue \<Rightarrow> ValueStore \<Rightarrow> ParserPool
   \<Rightarrow> ParserException + (ScanningKeyValue \<times> ValueStore \<times> ParserPool)" where
  "KeyValue_Swap kv vs pool =
     (case kv_p kv of
        PoolParser P \<Rightarrow>
          Inr (kv\<lparr>kv_given := False\<rparr>,
               vs\<lparr>vs_value := leaf_value P pool, vs_given := True\<rparr>,
               pool_swap P (vs_value vs) pool)
      | ArrayParser P a \<Rightarrow>
          (case ParseArray_Swap a of
             Inl e \<Rightarrow> Inl e
           | Inr (v, a1) \<Rightarrow>
               Inr (kv\<lparr>kv_p := ArrayParser P a1, kv_given := False\<rparr>,
                    vs\<lparr>vs_value := JArray v, vs_given := True\<rparr>, pool))
      | ContainerArrayParser P a \<Rightarrow>
          (case ParseContainerArray_Swap a of
             Inl e \<Rightarrow> Inl e
           | Inr (v, a1) \<Rightarrow>
               Inr (kv\<lparr>kv_p := ContainerArrayParser P a1, kv_given := False\<rparr>,
                    vs\<lparr>vs_value := JArray v, vs_given := True\<rparr>, pool)))"

subsection \<open>ParseObject::Scan\<close>

text \<open>
  The body of \<open>while (Begin != End)\<close> is a chain of \<open>if (state == ...)\<close> blocks, each
  falling through to the next. Every block is a function of its own here; a block whose
  state is not the current one passes position and state on unchanged.
\<close>

definition suspend :: "ParseObject \<Rightarrow> ParserPool \<Rightarrow> (ParseObject \<times> ParserPool) flow" where
  "suspend ob pool = Return None (ob\<lparr>po_finished := False\<rparr>, pool)"

definition ParseObject_PreKey ::
  "string \<Rightarrow> nat \<Rightarrow> ParseObject \<times> ParserPool \<Rightarrow> (ParseObject \<times> ParserPool) flow" where
  "ParseObject_PreKey xs b s =
     (case s of (ob, pool) \<Rightarrow>
        if po_state ob = PreKey then
          (case SkipWhitespace_Scan (drop b xs) pool of
             (None, pool1) \<Rightarrow> suspend ob pool1
           | (Some k, pool1) \<Rightarrow>
               if deref xs (b + k) = CHR ''}'' then checkPassed (b + k + 1) ob pool1
               else Continue (b + k) (ob\<lparr>po_state := ExpectKey\<rparr>, pool1))
        else Continue b s)"

definition ParseObject_ExpectKey ::
  "string \<Rightarrow> nat \<Rightarrow> ParseObject \<times> ParserPool \<Rightarrow> (ParseObject \<times> ParserPool) flow" where
  "ParseObject_ExpectKey xs b s =
     (case s of (ob, pool) \<Rightarrow>
        if po_state ob = ExpectKey then
          (case ParseString_Scan (drop b xs) pool of
             Inl e \<Rightarrow> Throw e
           | Inr (None, pool1) \<Rightarrow> suspend ob pool1
           | Inr (Some n, pool1) \<Rightarrow>
               (case setActivating (po_parsers ob) (string_value pool1) 0 of
                  None \<Rightarrow> Throw InvalidKey
                | Some k \<Rightarrow>
                    Continue (b + n) (ob\<lparr>po_activating := int k, po_state := PreColon\<rparr>, pool1)))
        else Continue b s)"

definition ParseObject_PreColon ::
  "string \<Rightarrow> nat \<Rightarrow> ParseObject \<times> ParserPool \<Rightarrow> (ParseObject \<times> ParserPool) flow" where
  "ParseObject_PreColon xs b s =
     (case s of (ob, pool) \<Rightarrow>
        if po_state ob = PreColon then
          (case SkipWhitespace_Scan (drop b xs) pool of
             (None, pool1) \<Rightarrow> suspend ob pool1
           | (Some k, pool1) \<Rightarrow> Continue (b + k) (ob\<lparr>po_state := ExpectColon\<rparr>, pool1))
        else Continue b s)"

definition ParseObject_ExpectColon ::
  "string \<Rightarrow> nat \<Rightarrow> ParseObject \<times> ParserPool \<Rightarrow> (ParseObject \<times> ParserPool) flow" where
  "ParseObject_ExpectColon xs b s =
     (case s of (ob, pool) \<Rightarrow>
        if po_state ob = ExpectColon then
          (if deref xs b \<noteq> CHR '':'' then Throw InvalidKeySeparator
           else if b + 1 = length xs then suspend (ob\<lparr>po_state := PreValue\<rparr>) pool
           else Continue (b + 1) (ob\<lparr>po_state := PreValue\<rparr>, pool))
        else Continue b s)"

definition ParseObject_PreValue ::
  "string \<Rightarrow> nat \<Rightarrow> ParseObject \<times> ParserPool \<Rightarrow> (ParseObject \<times> ParserPool) flow" where
  "ParseObject_PreValue xs b s =
     (case s of (ob, pool) \<Rightarrow>
        if po_state ob = PreValue then
          (case SkipWhitespace_Scan (drop b xs) pool of
             (None, pool1) \<Rightarrow> suspend ob pool1
           | (Some k, pool1) \<Rightarrow>
               Continue (b + k)
                 (ob\<lparr>po_active := po_activating ob, po_activating := - 1,
                     po_state := ExpectValue\<rparr>, pool1))
        else Continue b s)"

definition ParseObject_ExpectValue ::
  "string \<Rightarrow> nat \<Rightarrow> ParseObject \<times> ParserPool \<Rightarrow> (ParseObject \<times> ParserPool) flow" where
  "ParseObject_ExpectValue xs b s =
     (case s of (ob, pool) \<Rightarrow>
        if po_state ob = ExpectValue then
          (if 0 \<le> po_active ob \<and> nat (po_active ob) < length (po_parsers ob)
              \<and> nat (po_active ob) < length (po_out ob) then
             (let k = nat (po_active ob) in
              case Scanner_Scan (po_parsers ob ! k) (drop b xs) pool of
                Inl e \<Rightarrow> Throw e
              | Inr (None, kv1, pool1) \<Rightarrow>
                  suspend (ob\<lparr>po_parsers := (po_parsers ob)[k := kv1]\<rparr>) pool1
              | Inr (Some n, kv1, pool1) \<Rightarrow>
                  (case KeyValue_Swap kv1 (po_out ob ! k) pool1 of
                     Inl e \<Rightarrow> Throw e
                   | Inr (kv2, vs, pool2) \<Rightarrow>
                       Continue (b + n)
                         (ob\<lparr>po_parsers := (po_parsers ob)[k := kv2],
                             po_out := (po_out ob)[k := vs],
                             po_active := - 1, po_state := PreComma\<rparr>, pool2)))
           else Throw Undefined)
        else Continue b s)"

definition ParseObject_PreComma ::
  "string \<Rightarrow> nat \<Rightarrow> ParseObject \<times> ParserPool \<Rightarrow> (ParseObject \<times> ParserPool) flow" where
  "ParseObject_PreComma xs b s =
     (case s of (ob, pool) \<Rightarrow>
        if po_state ob = PreComma then
          (case SkipWhitespace_Scan (drop b xs) pool of
             (None, pool1) \<Rightarrow> suspend ob pool1
           | (Some k, pool1) \<Rightarrow> Continue (b + k) (ob\<lparr>po_state := ExpectComma\<rparr>, pool1))
        else Continue b s)"

definition ParseObject_ExpectComma ::
  "string \<Rightarrow> nat \<Rightarrow> ParseObject \<times> ParserPool \<Rightarrow> (ParseObject \<times> ParserPool) flow" where
  "ParseObject_ExpectComma xs b s =
     (case s of (ob, pool) \<Rightarrow>
        if po_state ob = ExpectComma then
          (if deref xs b = CHR ''}'' then checkPassed (b + 1) ob pool
           else if deref xs b \<noteq> CHR '','' then Throw InvalidValueSeparator
           else Continue (b + 1) (ob\<lparr>po_state := PreKey\<rparr>, pool))
        else Continue b s)"

definition ParseObject_body ::
  "string \<Rightarrow> nat \<Rightarrow> ParseObject \<times> ParserPool \<Rightarrow> (ParseObject \<times> ParserPool) flow" where
  "ParseObject_body xs b s =
     thenDo (thenDo (thenDo (thenDo (thenDo (thenDo (thenDo
       (ParseObject_PreKey xs b s)
       (ParseObject_ExpectKey xs))
       (ParseObject_PreColon xs))
       (ParseObject_ExpectColon xs))
       (ParseObject_PreValue xs))
       (ParseObject_ExpectValue xs))
       (ParseObject_PreComma xs))
       (ParseObject_ExpectComma xs)"

text \<open>
  Progress of the body. The states are passed in the order of the blocks: after the
  block of a state the parser is in a later one, so a pass that reaches the end of the
  body has gone through \<open>ExpectComma\<close> and consumed the comma.
\<close>

fun rank :: "State \<Rightarrow> nat" where
  "rank NotStarted = 0"
| "rank PreKey = 1"
| "rank ExpectKey = 2"
| "rank PreColon = 3"
| "rank ExpectColon = 4"
| "rank PreValue = 5"
| "rank ExpectValue = 6"
| "rank PreComma = 7"
| "rank ExpectComma = 8"

lemma thenDo_Continue:
  "thenDo r f = Continue b' s' \<Longrightarrow> \<exists>b s. r = Continue b s \<and> f b s = Continue b' s'"
  by (cases r) (auto simp: thenDo_def)

lemma ParseObject_PreKey_rank:
  "ParseObject_PreKey xs b s = Continue b' s' \<Longrightarrow> 1 \<le> rank (po_state (fst s))
   \<Longrightarrow> b \<le> b' \<and> 2 \<le> rank (po_state (fst s'))"
  by (cases "po_state (fst s)")
     (auto simp: ParseObject_PreKey_def suspend_def checkPassed_def
           split: prod.splits if_splits option.splits sum.splits)

lemma ParseObject_ExpectKey_rank:
  "ParseObject_ExpectKey xs b s = Continue b' s' \<Longrightarrow> 2 \<le> rank (po_state (fst s))
   \<Longrightarrow> b \<le> b' \<and> 3 \<le> rank (po_state (fst s'))"
  by (cases "po_state (fst s)")
     (auto simp: ParseObject_ExpectKey_def suspend_def 
           split: prod.splits if_splits option.splits sum.splits)

lemma ParseObject_PreColon_rank:
  "ParseObject_PreColon xs b s = Continue b' s' \<Longrightarrow> 3 \<le> rank (po_state (fst s))
   \<Longrightarrow> b \<le> b' \<and> 4 \<le> rank (po_state (fst s'))"
  by (cases "po_state (fst s)")
     (auto simp: ParseObject_PreColon_def suspend_def 
           split: prod.splits if_splits option.splits sum.splits)

lemma ParseObject_ExpectColon_rank:
  "ParseObject_ExpectColon xs b s = Continue b' s' \<Longrightarrow> 4 \<le> rank (po_state (fst s))
   \<Longrightarrow> b \<le> b' \<and> 5 \<le> rank (po_state (fst s'))"
  by (cases "po_state (fst s)")
     (auto simp: ParseObject_ExpectColon_def suspend_def 
           split: prod.splits if_splits option.splits sum.splits)

lemma ParseObject_PreValue_rank:
  "ParseObject_PreValue xs b s = Continue b' s' \<Longrightarrow> 5 \<le> rank (po_state (fst s))
   \<Longrightarrow> b \<le> b' \<and> 6 \<le> rank (po_state (fst s'))"
  by (cases "po_state (fst s)")
     (auto simp: ParseObject_PreValue_def suspend_def 
           split: prod.splits if_splits option.splits sum.splits)

lemma ParseObject_ExpectValue_rank:
  "ParseObject_ExpectValue xs b s = Continue b' s' \<Longrightarrow> 6 \<le> rank (po_state (fst s))
   \<Longrightarrow> b \<le> b' \<and> 7 \<le> rank (po_state (fst s'))"
  by (cases "po_state (fst s)")
     (auto simp: ParseObject_ExpectValue_def suspend_def Let_def
           split: prod.splits if_splits option.splits sum.splits)

lemma ParseObject_PreComma_rank:
  "ParseObject_PreComma xs b s = Continue b' s' \<Longrightarrow> 7 \<le> rank (po_state (fst s))
   \<Longrightarrow> b \<le> b' \<and> 8 \<le> rank (po_state (fst s'))"
  by (cases "po_state (fst s)")
     (auto simp: ParseObject_PreComma_def suspend_def 
           split: prod.splits if_splits option.splits sum.splits)

lemma ParseObject_ExpectComma_rank:
  "ParseObject_ExpectComma xs b s = Continue b' s' \<Longrightarrow> 8 \<le> rank (po_state (fst s))
   \<Longrightarrow> b < b' \<and> po_state (fst s') = PreKey"
  by (cases "po_state (fst s)")
     (auto simp: ParseObject_ExpectComma_def checkPassed_def split: prod.splits if_splits)

lemma ParseObject_body_progress:
  assumes "ParseObject_body xs b s = Continue b' s'" and "po_state (fst s) \<noteq> NotStarted"
  shows "b < b' \<and> po_state (fst s') = PreKey"
proof -
  from assms(2) have r0: "1 \<le> rank (po_state (fst s))"
    by (cases "po_state (fst s)") auto
  from assms(1)[unfolded ParseObject_body_def]
  obtain b7 s7 where c7: "ParseObject_ExpectComma xs b7 s7 = Continue b' s'"
    and t7: "thenDo (thenDo (thenDo (thenDo (thenDo (thenDo
       (ParseObject_PreKey xs b s)
       (ParseObject_ExpectKey xs))
       (ParseObject_PreColon xs))
       (ParseObject_ExpectColon xs))
       (ParseObject_PreValue xs))
       (ParseObject_ExpectValue xs))
       (ParseObject_PreComma xs) = Continue b7 s7"
    by (blast dest: thenDo_Continue)
  from t7 obtain b6 s6 where c6: "ParseObject_PreComma xs b6 s6 = Continue b7 s7"
    and t6: "thenDo (thenDo (thenDo (thenDo (thenDo
       (ParseObject_PreKey xs b s)
       (ParseObject_ExpectKey xs))
       (ParseObject_PreColon xs))
       (ParseObject_ExpectColon xs))
       (ParseObject_PreValue xs))
       (ParseObject_ExpectValue xs) = Continue b6 s6"
    by (blast dest: thenDo_Continue)
  from t6 obtain b5 s5 where c5: "ParseObject_ExpectValue xs b5 s5 = Continue b6 s6"
    and t5: "thenDo (thenDo (thenDo (thenDo
       (ParseObject_PreKey xs b s)
       (ParseObject_ExpectKey xs))
       (ParseObject_PreColon xs))
       (ParseObject_ExpectColon xs))
       (ParseObject_PreValue xs) = Continue b5 s5"
    by (blast dest: thenDo_Continue)
  from t5 obtain b4 s4 where c4: "ParseObject_PreValue xs b4 s4 = Continue b5 s5"
    and t4: "thenDo (thenDo (thenDo
       (ParseObject_PreKey xs b s)
       (ParseObject_ExpectKey xs))
       (ParseObject_PreColon xs))
       (ParseObject_ExpectColon xs) = Continue b4 s4"
    by (blast dest: thenDo_Continue)
  from t4 obtain b3 s3 where c3: "ParseObject_ExpectColon xs b3 s3 = Continue b4 s4"
    and t3: "thenDo (thenDo
       (ParseObject_PreKey xs b s)
       (ParseObject_ExpectKey xs))
       (ParseObject_PreColon xs) = Continue b3 s3"
    by (blast dest: thenDo_Continue)
  from t3 obtain b2 s2 where c2: "ParseObject_PreColon xs b2 s2 = Continue b3 s3"
    and t2: "thenDo (ParseObject_PreKey xs b s) (ParseObject_ExpectKey xs) = Continue b2 s2"
    by (blast dest: thenDo_Continue)
  from t2 obtain b1 s1 where c1: "ParseObject_ExpectKey xs b1 s1 = Continue b2 s2"
    and c0: "ParseObject_PreKey xs b s = Continue b1 s1"
    by (blast dest: thenDo_Continue)
  from ParseObject_PreKey_rank[OF c0] r0
  have k1: "b \<le> b1" "2 \<le> rank (po_state (fst s1))" by simp_all
  from ParseObject_ExpectKey_rank[OF c1] k1
  have k2: "b \<le> b2" "3 \<le> rank (po_state (fst s2))" by simp_all
  from ParseObject_PreColon_rank[OF c2] k2
  have k3: "b \<le> b3" "4 \<le> rank (po_state (fst s3))" by simp_all
  from ParseObject_ExpectColon_rank[OF c3] k3
  have k4: "b \<le> b4" "5 \<le> rank (po_state (fst s4))" by simp_all
  from ParseObject_PreValue_rank[OF c4] k4
  have k5: "b \<le> b5" "6 \<le> rank (po_state (fst s5))" by simp_all
  from ParseObject_ExpectValue_rank[OF c5] k5
  have k6: "b \<le> b6" "7 \<le> rank (po_state (fst s6))" by simp_all
  from ParseObject_PreComma_rank[OF c6] k6
  have k7: "b \<le> b7" "8 \<le> rank (po_state (fst s7))" by simp_all
  from ParseObject_ExpectComma_rank[OF c7] k7 show ?thesis by simp
qed

text \<open>
  The loop is entered in a state other than \<open>NotStarted\<close> (\<open>Scan\<close> leaves that state
  first, and a pass of the body ends in \<open>PreKey\<close>). In \<open>NotStarted\<close> no block would
  apply and the source would go round without advancing.
\<close>

function ParseObject_loop ::
  "string \<Rightarrow> nat \<Rightarrow> ParseObject \<Rightarrow> ParserPool
   \<Rightarrow> ParserException + (nat option \<times> ParseObject \<times> ParserPool)" where
  "ParseObject_loop xs b ob pool =
     (if b < length xs then
        (if po_state ob = NotStarted then Inl Undefined
         else
           (case ParseObject_body xs b (ob, pool) of
              Throw e \<Rightarrow> Inl e
            | Return r s \<Rightarrow> Inr (r, s)
            | Continue b' s \<Rightarrow> ParseObject_loop xs b' (fst s) (snd s)))
      else Inr (None, ob\<lparr>po_finished := False\<rparr>, pool))"
  by pat_completeness auto
termination
  by (relation "measure (\<lambda>(xs, b, ob, pool). length xs - b)")
     (auto dest: ParseObject_body_progress)

declare ParseObject_loop.simps [simp del]

definition ParseObject_Scan ::
  "string \<Rightarrow> ParseObject \<Rightarrow> ParserPool
   \<Rightarrow> ParserException + (nat option \<times> ParseObject \<times> ParserPool)" where
  "ParseObject_Scan xs ob pool =
     (if po_state ob = NotStarted then
        (if deref xs 0 \<noteq> CHR ''{'' then Inl InvalidObjectStart
         else ParseObject_loop xs 1 (ob\<lparr>po_state := PreKey\<rparr>) pool)
      else ParseObject_loop xs 0 ob pool)"

section \<open>Verified properties\<close>

subsection \<open>The trailing comma\<close>

text \<open>
  C4, as stated: decoding \<open>[1,]\<close> with the float array combinator raises the
  array-separator error. It does not: the error is another one.
\<close>

theorem C4_counterexample:
  "ParseArray_Scan LFloat ''[1,]'' ParseArray_init ParserPool_init \<noteq> Inl InvalidArraySeparator"
  by code_simp

text \<open>
  C4, amended: decoding \<open>[1,]\<close> with the float array combinator fails, and the error
  raised is the invalid-float error. After a comma the combinator skips whitespace and
  hands the next byte to the element scanner, so it is the float scanner that rejects
  the closing bracket.
\<close>

theorem C4_trailing_comma_invalid_float:
  "ParseArray_Scan LFloat ''[1,]'' ParseArray_init ParserPool_init = Inl InvalidFloat"
  by code_simp

subsection \<open>Unicode escapes\<close>

text \<open>
  UTF-8 of a code unit below 0x10000 as the specification words it, in arithmetic: one
  byte below 0x80, two bytes below 0x800, three bytes from 0x800 upward.
\<close>

definition utf8_bytes :: "nat \<Rightarrow> char list" where
  "utf8_bytes v =
     (if v < 0x80 then [char_of v]
      else if v < 0x800 then [char_of (0xC0 + v div 64), char_of (0x80 + v mod 64)]
      else [char_of (0xE0 + v div 4096), char_of (0x80 + v div 64 mod 64),
            char_of (0x80 + v mod 64)])"

lemma and_low_bits:
  fixes v :: int
  shows "v AND 0x3f = v mod 64" and "v AND 0x1f = v mod 32" and "v AND 0xf = v mod 16"
proof -
  have m: "(0x3f::int) = mask 6" "(0x1f::int) = mask 5" "(0xf::int) = mask 4"
    by (simp_all add: mask_eq_exp_minus_1)
  show "v AND 0x3f = v mod 64" "v AND 0x1f = v mod 32" "v AND 0xf = v mod 16"
    unfolding m by (simp_all add: take_bit_eq_mask[symmetric] take_bit_eq_mod)
qed

lemma push_take_disjoint:
  fixes x :: int
  shows "k \<le> m \<Longrightarrow> push_bit m c AND take_bit k x = 0"
  by (rule bit_eqI) (auto simp: bit_simps)

lemma or_high_bits:
  fixes x :: int
  assumes "0 \<le> x"
  shows "x < 32 \<Longrightarrow> 0xc0 OR x = 0xc0 + x"
    and "x < 64 \<Longrightarrow> 0x80 OR x = 0x80 + x"
    and "x < 16 \<Longrightarrow> 0xe0 OR x = 0xe0 + x"
proof -
  { assume "x < 32"
    with assms have x: "take_bit 5 x = x" by (simp add: take_bit_int_eq_self)
    have "push_bit 6 (3::int) AND take_bit 5 x = 0" by (rule push_take_disjoint) simp
    with x have "(0xc0::int) AND x = 0" by simp
    then show "0xc0 OR x = 0xc0 + x" by (simp add: disjunctive_add_eq_or) }
  { assume "x < 64"
    with assms have x: "take_bit 6 x = x" by (simp add: take_bit_int_eq_self)
    have "push_bit 7 (1::int) AND take_bit 6 x = 0" by (rule push_take_disjoint) simp
    with x have "(0x80::int) AND x = 0" by simp
    then show "0x80 OR x = 0x80 + x" by (simp add: disjunctive_add_eq_or) }
  { assume "x < 16"
    with assms have x: "take_bit 4 x = x" by (simp add: take_bit_int_eq_self)
    have "push_bit 5 (7::int) AND take_bit 4 x = 0" by (rule push_take_disjoint) simp
    with x have "(0xe0::int) AND x = 0" by simp
    then show "0xe0 OR x = 0xe0 + x" by (simp add: disjunctive_add_eq_or) }
qed

lemma char_of_int_nat: "char_of (int n) = (char_of n :: char)"
  by (rule char_of_nat)

lemma char_of_add_int: "0 \<le> c \<Longrightarrow> char_of (c + int n) = (char_of (nat c + n) :: char)"
proof -
  assume "0 \<le> c"
  then have "c + int n = int (nat c + n)" by simp
  then show ?thesis by (simp only: char_of_int_nat)
qed

lemma utf8_eq:
  assumes v: "v < 65536"
  shows "utf8 (int v) = utf8_bytes v"
proof -
  have d6: "drop_bit 6 (int v) = int (v div 64)" and d12: "drop_bit 12 (int v) = int (v div 4096)"
    by (simp_all add: drop_bit_eq_div zdiv_int)
  have b1: "v div 4096 < 16" using v by simp
  have a1: "0xe0 OR (int (v div 4096) mod 16) = int (0xE0 + v div 4096)"
    using b1 by (simp add: or_high_bits)
  have a2: "0x80 OR (int (v div 64) mod 64) = int (0x80 + v div 64 mod 64)"
    by (simp add: or_high_bits zmod_int)
  have a3: "0x80 OR (int v mod 64) = int (0x80 + v mod 64)"
    by (simp add: or_high_bits zmod_int)
  have a4: "v < 2048 \<Longrightarrow> 0xc0 OR (int (v div 64) mod 32) = int (0xC0 + v div 64)"
    by (simp add: or_high_bits)
  show ?thesis
    unfolding utf8_def utf8_bytes_def d6 d12 and_low_bits
    using a1 a2 a3 a4 by (simp add: char_of_int_nat char_of_add_int)
qed

lemma hex_value_foldl:
  "list_all isxdigit hs \<Longrightarrow>
   hex_value hs (int a) = Inr (int (foldl (\<lambda>a c. 16 * a + xdigit_val c) a hs))"
proof (induction hs arbitrary: a)
  case Nil
  then show ?case by simp
next
  case (Cons h hs)
  from Cons.prems have h: "isxdigit h" and hs: "list_all isxdigit hs" by simp_all
  have step: "push_bit 4 (int a) + int (xdigit_val h) = int (16 * a + xdigit_val h)"
    by (simp add: push_bit_eq_mult)
  from h have d: "inrange CHR ''0'' h CHR ''9'' \<Longrightarrow>
      int (code_of h) - int (code_of CHR ''0'') = int (xdigit_val h)"
    and l: "\<not> inrange CHR ''0'' h CHR ''9'' \<Longrightarrow> inrange CHR ''a'' h CHR ''f'' \<Longrightarrow>
      10 + int (code_of h) - int (code_of CHR ''a'') = int (xdigit_val h)"
    and u: "\<not> inrange CHR ''0'' h CHR ''9'' \<Longrightarrow> \<not> inrange CHR ''a'' h CHR ''f'' \<Longrightarrow>
      inrange CHR ''A'' h CHR ''F'' \<and> 10 + int (code_of h) - int (code_of CHR ''A'') = int (xdigit_val h)"
    by (auto simp: xdigit_val_def isxdigit_def isdigit_def inrange_def code_of_def)
  show ?case
    using d l u Cons.IH[OF hs, of "16 * a + xdigit_val h"] step
    by (auto simp del: of_nat_add of_nat_mult)
qed

lemma xdigit_val_less: "isxdigit h \<Longrightarrow> xdigit_val h < 16"
  by (auto simp: xdigit_val_def isxdigit_def isdigit_def inrange_def code_of_def)

lemma xdigits_val4_less:
  "list_all isxdigit [h1, h2, h3, h4] \<Longrightarrow> xdigits_val [h1, h2, h3, h4] < 65536"
  using xdigit_val_less[of h1] xdigit_val_less[of h2] xdigit_val_less[of h3] xdigit_val_less[of h4]
  by (simp add: xdigits_val_def)

text \<open>
  C7: the string scanner decodes a backslash-u escape with four hexadecimal digits to UTF-8. For any four hexadecimal
  digits, scanning the quoted literal that holds just this escape with a new pool finishes after its 8 bytes
  with the UTF-8 bytes of the code unit as the decoded string: one byte below 0x80, two
  from 0x80 to 0x7FF, three from 0x800 upward. In particular the escape with digits
  0079 yields 0x79, with 0080 yields 0xC2 0x80 and with 0800 yields 0xE0 0xA0 0x80.
\<close>

theorem C7_unicode_escape_utf8:
  assumes "list_all isxdigit [h1, h2, h3, h4]"
  shows "ParseString_Scan [CHR 0x22, CHR 0x5C, CHR ''u'', h1, h2, h3, h4, CHR 0x22] ParserPool_init
       = Inr (Some 8, ParserPool_init
            \<lparr>string_value := utf8_bytes (xdigits_val [h1, h2, h3, h4]),
             string_parser := ParseString_init\<lparr>ps_hex_digits := [h1, h2, h3, h4]\<rparr>\<rparr>)
     \<and> ParseString_Scan [CHR 0x22, CHR 0x5C, CHR ''u'', CHR ''0'', CHR ''0'', CHR ''7'', CHR ''9'',
          CHR 0x22] ParserPool_init
       = Inr (Some 8, ParserPool_init
            \<lparr>string_value := [CHR 0x79],
             string_parser := ParseString_init\<lparr>ps_hex_digits := ''0079''\<rparr>\<rparr>)
     \<and> ParseString_Scan [CHR 0x22, CHR 0x5C, CHR ''u'', CHR ''0'', CHR ''0'', CHR ''8'', CHR ''0'',
          CHR 0x22] ParserPool_init
       = Inr (Some 8, ParserPool_init
            \<lparr>string_value := [CHR 0xC2, CHR 0x80],
             string_parser := ParseString_init\<lparr>ps_hex_digits := ''0080''\<rparr>\<rparr>)
     \<and> ParseString_Scan [CHR 0x22, CHR 0x5C, CHR ''u'', CHR ''0'', CHR ''8'', CHR ''0'', CHR ''0'',
          CHR 0x22] ParserPool_init
       = Inr (Some 8, ParserPool_init
            \<lparr>string_value := [CHR 0xE0, CHR 0xA0, CHR 0x80],
             string_parser := ParseString_init\<lparr>ps_hex_digits := ''0800''\<rparr>\<rparr>)"
proof -
  have hv: "hex_value [h1, h2, h3, h4] 0 = Inr (int (xdigits_val [h1, h2, h3, h4]))"
    using hex_value_foldl[OF assms, of 0] by (simp add: xdigits_val_def)
  have u: "utf8 (int (xdigits_val [h1, h2, h3, h4])) = utf8_bytes (xdigits_val [h1, h2, h3, h4])"
    by (rule utf8_eq) (rule xdigits_val4_less[OF assms])
  have general:
    "ParseString_Scan [CHR 0x22, CHR 0x5C, CHR ''u'', h1, h2, h3, h4, CHR 0x22] ParserPool_init
       = Inr (Some 8, ParserPool_init
            \<lparr>string_value := utf8_bytes (xdigits_val [h1, h2, h3, h4]),
             string_parser := ParseString_init\<lparr>ps_hex_digits := [h1, h2, h3, h4]\<rparr>\<rparr>)"
    by (simp add: ParseString_Scan_def ParseString_scan_def deref_def ParserPool_init_def
          ParseString_init_def hv u Let_def del: hex_value.simps)
  have e1: "ParseString_Scan [CHR 0x22, CHR 0x5C, CHR ''u'', CHR ''0'', CHR ''0'', CHR ''7'', CHR ''9'',
          CHR 0x22] ParserPool_init
       = Inr (Some 8, ParserPool_init
            \<lparr>string_value := [CHR 0x79],
             string_parser := ParseString_init\<lparr>ps_hex_digits := ''0079''\<rparr>\<rparr>)"
    by code_simp
  have e2: "ParseString_Scan [CHR 0x22, CHR 0x5C, CHR ''u'', CHR ''0'', CHR ''0'', CHR ''8'', CHR ''0'',
          CHR 0x22] ParserPool_init
       = Inr (Some 8, ParserPool_init
            \<lparr>string_value := [CHR 0xC2, CHR 0x80],
             string_parser := ParseString_init\<lparr>ps_hex_digits := ''0080''\<rparr>\<rparr>)"
    by code_simp
  have e3: "ParseString_Scan [CHR 0x22, CHR 0x5C, CHR ''u'', CHR ''0'', CHR ''8'', CHR ''0'', CHR ''0'',
          CHR 0x22] ParserPool_init
       = Inr (Some 8, ParserPool_init
            \<lparr>string_value := [CHR 0xE0, CHR 0xA0, CHR 0x80],
             string_parser := ParseString_init\<lparr>ps_hex_digits := ''0800''\<rparr>\<rparr>)"
    by code_simp
  from general e1 e2 e3 show ?thesis by blast
qed

text \<open>
  Witness for C7: the digits \<open>07FF\<close> are hexadecimal, and the escape with them decodes to
  the two bytes 0xDF 0xBF.
\<close>

theorem C7_witness:
  "list_all isxdigit ''07FF''
   \<and> ParseString_Scan [CHR 0x22, CHR 0x5C, CHR ''u'', CHR ''0'', CHR ''7'', CHR ''F'', CHR ''F'',
        CHR 0x22] ParserPool_init
     = Inr (Some 8, ParserPool_init
          \<lparr>string_value := [CHR 0xDF, CHR 0xBF],
           string_parser := ParseString_init\<lparr>ps_hex_digits := ''07FF''\<rparr>\<rparr>)"
proof -
  have h: "list_all isxdigit [CHR ''0'', CHR ''7'', CHR ''F'', CHR ''F'']" by code_simp
  have v: "utf8_bytes (xdigits_val [CHR ''0'', CHR ''7'', CHR ''F'', CHR ''F'']) = [CHR 0xDF, CHR 0xBF]"
    by code_simp
  from C7_unicode_escape_utf8[OF h] v h show ?thesis by simp
qed

subsection \<open>Required keys\<close>







subsection \<open>The float scanner and the end of the span\<close>

lemma numrun_le: "numrun xs \<le> length xs"
  by (induction xs) auto

lemma numrun_all: "(numrun xs = length xs) = list_all numch xs"
  by (induction xs) auto

lemma numrun_stop: "numrun xs < length xs \<Longrightarrow> \<not> numch (xs ! numrun xs)"
  by (induction xs) auto

lemma numrun_take: "numrun (take n xs) = min n (numrun xs)"
  by (induction xs arbitrary: n) (auto simp: take_Cons split: nat.splits)

lemma sign_len_le: "sign_len xs \<le> length xs"
  by (cases xs) (auto simp: sign_len_def)

lemma exponent_part_le: "snd (exponent_part lo up xs) \<le> length xs"
proof (cases xs)
  case Nil
  then show ?thesis by (simp add: exponent_part_def)
next
  case (Cons c r)
  have "length (takeWhile isdigit (drop (sign_len r) r)) \<le> length r - sign_len r"
    using length_takeWhile_le[of isdigit "drop (sign_len r) r"] by simp
  with sign_len_le[of r] Cons show ?thesis
    by (auto simp: exponent_part_def Let_def)
qed

lemma mantissa_le:
  "length (takeWhile p xs) +
     (if drop (length (takeWhile p xs)) xs \<noteq> [] \<and> hd (drop (length (takeWhile p xs)) xs) = CHR ''.''
      then 1 + length (takeWhile p (tl (drop (length (takeWhile p xs)) xs))) else 0) \<le> length xs"
proof -
  let ?r = "drop (length (takeWhile p xs)) xs"
  have a: "length (takeWhile p xs) + length ?r = length xs"
    using length_takeWhile_le[of p xs] by simp
  have b: "?r \<noteq> [] \<Longrightarrow> 1 + length (takeWhile p (tl ?r)) \<le> length ?r"
    using length_takeWhile_le[of p "tl ?r"] by (cases ?r) auto
  from a b show ?thesis by auto
qed

lemma decimal_body_le: "decimal_body xs = Some (v, n) \<Longrightarrow> n \<le> length xs"
proof -
  assume d: "decimal_body xs = Some (v, n)"
  let ?ip = "takeWhile isdigit xs"
  let ?r = "drop (length ?ip) xs"
  let ?m = "length ?ip + (if ?r \<noteq> [] \<and> hd ?r = CHR ''.'' then 1 + length (takeWhile isdigit (tl ?r)) else 0)"
  have m: "?m \<le> length xs" by (rule mantissa_le)
  have e: "snd (exponent_part CHR ''e'' CHR ''E'' (drop ?m xs)) \<le> length xs - ?m"
    using exponent_part_le[of "CHR ''e''" "CHR ''E''" "drop ?m xs"] by simp
  from d have "n = ?m + snd (exponent_part CHR ''e'' CHR ''E'' (drop ?m xs))"
    by (auto simp: decimal_body_def Let_def split: if_splits prod.splits)
  with m e show ?thesis by linarith
qed

lemma hex_body_le: "hex_body xs = Some (v, n) \<Longrightarrow> n \<le> length xs"
proof -
  assume d: "hex_body xs = Some (v, n)"
  let ?ys = "drop 2 xs"
  let ?ip = "takeWhile isxdigit ?ys"
  let ?r = "drop (length ?ip) ?ys"
  let ?m = "length ?ip + (if ?r \<noteq> [] \<and> hd ?r = CHR ''.'' then 1 + length (takeWhile isxdigit (tl ?r)) else 0)"
  have m: "?m \<le> length ?ys" by (rule mantissa_le)
  have e: "snd (exponent_part CHR ''p'' CHR ''P'' (drop ?m ?ys)) \<le> length ?ys - ?m"
    using exponent_part_le[of "CHR ''p''" "CHR ''P''" "drop ?m ?ys"] by simp
  from d have "n = 2 + ?m + snd (exponent_part CHR ''p'' CHR ''P'' (drop ?m ?ys))" and "2 \<le> length xs"
    by (auto simp: hex_body_def Let_def split: if_splits prod.splits)
  with m e show ?thesis by simp
qed

lemma special_body_le: "special_body xs = Some (v, n) \<Longrightarrow> sign_len xs + n \<le> length xs"
proof -
  assume d: "special_body xs = Some (v, n)"
  let ?b = "drop (sign_len xs) xs"
  let ?r = "drop 3 ?b"
  let ?ns = "takeWhile nchar (tl ?r)"
  have len: "\<And>k t. map tolower (take k ?b) = t \<Longrightarrow> sign_len xs + length t \<le> length xs"
  proof -
    fix k t assume "map tolower (take k ?b) = t"
    then have "length t \<le> length ?b" by (metis length_map length_take min.cobounded1)
    with sign_len_le[of xs] show "sign_len xs + length t \<le> length xs" by simp
  qed
  show ?thesis
  proof (cases "map tolower (take 8 ?b) = ''infinity''")
    case True
    with d have "n = 8" by (simp add: special_body_def Let_def)
    with len[OF True] show ?thesis by simp
  next
    case inf8: False
    show ?thesis
    proof (cases "map tolower (take 3 ?b) = ''inf''")
      case True
      with d inf8 have "n = 3" by (simp add: special_body_def Let_def)
      with len[OF True] show ?thesis by simp
    next
      case inf3: False
      show ?thesis
      proof (cases "map tolower (take 3 ?b) = ''nan''")
        case True
        note nan = this
        show ?thesis
        proof (cases "?r \<noteq> [] \<and> hd ?r = CHR ''('' \<and> deref ?r (1 + length ?ns) = CHR '')''")
          case True
          with d inf8 inf3 nan have n: "n = 3 + 1 + length ?ns + 1"
            by (simp add: special_body_def Let_def)
          from True have "1 + length ?ns < length ?r"
            by (auto simp: deref_def split: if_splits)
          with n sign_len_le[of xs] show ?thesis by simp
        next
          case False
          with d inf8 inf3 nan have "n = 3" by (auto simp: special_body_def Let_def)
          with len[OF nan] show ?thesis by simp
        qed
      next
        case False
        with d inf8 inf3 show ?thesis by (simp add: special_body_def Let_def)
      qed
    qed
  qed
qed

lemma strtof_le: "snd (strtof s) \<le> length s"
proof -
  let ?w = "length (takeWhile isspace s)"
  let ?r = "drop ?w s"
  let ?b = "drop (sign_len ?r) ?r"
  have w: "?w \<le> length s" by (rule length_takeWhile_le)
  have sl: "sign_len ?r \<le> length s - ?w" using sign_len_le[of ?r] by simp
  show ?thesis
  proof (cases "hex_body ?b")
    case (Some a)
    obtain v n where a: "a = (v, n)" by (cases a)
    from hex_body_le[of ?b v n] Some a have "n \<le> length s - ?w - sign_len ?r" by simp
    with w sl Some a show ?thesis by (simp add: strtof_def Let_def)
  next
    case None
    note h = this
    show ?thesis
    proof (cases "decimal_body ?b")
      case (Some a)
      obtain v n where a: "a = (v, n)" by (cases a)
      from decimal_body_le[of ?b v n] Some a have "n \<le> length s - ?w - sign_len ?r" by simp
      with w sl Some a h show ?thesis by (simp add: strtof_def Let_def)
    next
      case None
      note d = this
      show ?thesis
      proof (cases "special_body ?r")
        case (Some a)
        obtain v n where a: "a = (v, n)" by (cases a)
        from special_body_le[of ?r v n] Some a have "sign_len ?r + n \<le> length s - ?w" by simp
        with w Some a h d show ?thesis by (simp add: strtof_def Let_def)
      next
        case None
        with h d show ?thesis by (simp add: strtof_def Let_def)
      qed
    qed
  qed
qed

lemma ParseFloat_Scan_suspend:
  assumes "buffer pool = []" and "list_all numch xs"
    and "snd (strtof xs) = 0 \<or> snd (strtof xs) = length xs"
  shows "ParseFloat_Scan xs pool =
    Inr (None, pool\<lparr>float_value := fst (strtof xs), buffer := xs, float_finished := False\<rparr>)"
proof -
  from assms(2) have n: "numrun xs = length xs" by (simp add: numrun_all)
  from assms(1,3) n show ?thesis
    by (auto simp: ParseFloat_Scan_def Let_def split: prod.splits)
qed

lemma ParseFloat_Scan_finish:
  assumes "ParseFloat_Scan xs pool = Inr (Some n, pool')"
  shows "n < length xs \<and> (buffer pool \<noteq> [] \<longrightarrow> \<not> numch (xs ! n))
         \<and> (buffer pool = [] \<longrightarrow> 0 < n \<and> n = snd (strtof xs))"
proof (cases "buffer pool = []")
  case True
  with assms have "n = snd (strtof xs)" and "n \<noteq> 0" and "n \<noteq> length xs"
    by (auto simp: ParseFloat_Scan_def Let_def split: prod.splits if_splits)
  with strtof_le[of xs] True show ?thesis by simp
next
  case False
  with assms have "n = numrun xs" and "n \<noteq> length xs"
    by (auto simp: ParseFloat_Scan_def Let_def split: prod.splits if_splits)
  with numrun_le[of xs] numrun_stop[of xs] False show ?thesis by simp
qed

text \<open>
  C10, as stated: a float only completes in a call whose span holds a non-numeric byte
  after the literal. The span \<open>1e3e\<close> (a test of the repository) consists of accepted
  numeric characters only, and the scan of it completes at position 3.
\<close>

theorem C10_counterexample:
  "ParseFloat_Scan ''1e3e'' ParserPool_init = Inr (Some 3, ParserPool_init\<lparr>float_value := Finite 1000\<rparr>)
   \<and> list_all numch ''1e3e''"
  by code_simp

text \<open>
  C10, amended: when the float scanner starts a new token (empty buffer), every byte
  of the span is an accepted numeric character and \<open>strtof\<close> does not stop strictly
  before \<open>End\<close> (it takes the whole span, or nothing), the scan copies the span into the
  buffer and returns the not-finished sentinel, also when the span is already a complete
  literal. A float therefore completes only in a call whose span holds a byte after the
  literal: the position returned is strictly before \<open>End\<close>. In a resumed call that byte
  is not an accepted numeric character; in a call that starts a token it is the byte at
  which \<open>strtof\<close> stopped, which can be one of the accepted characters.
\<close>

theorem C10_float_suspends_at_End:
  "(buffer pool = [] \<and> list_all numch xs \<and> (snd (strtof xs) = 0 \<or> snd (strtof xs) = length xs)
      \<longrightarrow> ParseFloat_Scan xs pool =
            Inr (None, pool\<lparr>float_value := fst (strtof xs), buffer := xs, float_finished := False\<rparr>))
   \<and> (ParseFloat_Scan xs pool = Inr (Some n, pool')
      \<longrightarrow> n < length xs \<and> (buffer pool \<noteq> [] \<longrightarrow> \<not> numch (xs ! n))
          \<and> (buffer pool = [] \<longrightarrow> 0 < n \<and> n = snd (strtof xs)))"
  using ParseFloat_Scan_suspend[of pool xs] ParseFloat_Scan_finish[of xs pool n pool']
  by blast

text \<open>
  Witness for C10: \<open>123\<close> is kept in the buffer although it is a complete literal;
  \<open>.5,\<close> resumes a buffered \<open>1\<close> and completes before the comma; \<open>1e3e\<close> completes
  where \<open>strtof\<close> stopped.
\<close>

theorem C10_witness:
  "buffer ParserPool_init = [] \<and> list_all numch ''123'' \<and> snd (strtof ''123'') = length ''123''
   \<and> ParseFloat_Scan ''123'' ParserPool_init =
       Inr (None, ParserPool_init\<lparr>float_value := Finite 123, buffer := ''123'', float_finished := False\<rparr>)
   \<and> ParseFloat_Scan ''.5,'' (ParserPool_init\<lparr>buffer := ''1'', float_finished := False\<rparr>) =
       Inr (Some 2, ParserPool_init\<lparr>float_value := Finite (3 / 2)\<rparr>)
   \<and> (2::nat) < length ''.5,'' \<and> \<not> numch (''.5,'' ! 2)
   \<and> ParseFloat_Scan ''1e3e'' ParserPool_init = Inr (Some 3, ParserPool_init\<lparr>float_value := Finite 1000\<rparr>)
   \<and> (3::nat) < length ''1e3e'' \<and> 3 = snd (strtof ''1e3e'')"
proof -
  have b: "buffer ParserPool_init = []" by (simp add: ParserPool_init_def)
  have a: "list_all numch ''123''" by code_simp
  have s: "snd (strtof ''123'') = length ''123''" by code_simp
  have f: "fst (strtof ''123'') = Finite 123" by code_simp
  have r1: "ParseFloat_Scan ''.5,'' (ParserPool_init\<lparr>buffer := ''1'', float_finished := False\<rparr>) =
       Inr (Some 2, ParserPool_init\<lparr>float_value := Finite (3 / 2)\<rparr>)" by code_simp
  have nb: "buffer (ParserPool_init\<lparr>buffer := ''1'', float_finished := False\<rparr>) \<noteq> []" by simp
  have r2: "ParseFloat_Scan ''1e3e'' ParserPool_init
       = Inr (Some 3, ParserPool_init\<lparr>float_value := Finite 1000\<rparr>)" by code_simp
  from C10_float_suspends_at_End[of ParserPool_init "''123''"] b a s f
  have w1: "ParseFloat_Scan ''123'' ParserPool_init =
       Inr (None, ParserPool_init\<lparr>float_value := Finite 123, buffer := ''123'', float_finished := False\<rparr>)"
    by simp
  from C10_float_suspends_at_End[of "ParserPool_init\<lparr>buffer := ''1'', float_finished := False\<rparr>" "''.5,''" 2
      "ParserPool_init\<lparr>float_value := Finite (3 / 2)\<rparr>"] r1 nb
  have w2: "(2::nat) < length ''.5,'' \<and> \<not> numch (''.5,'' ! 2)" by blast
  from C10_float_suspends_at_End[of ParserPool_init "''1e3e''" 3
      "ParserPool_init\<lparr>float_value := Finite 1000\<rparr>"] r2 b
  have w3: "(3::nat) < length ''1e3e'' \<and> 3 = snd (strtof ''1e3e'')" by blast
  from b a s w1 r1 w2 r2 w3 show ?thesis by blast
qed

subsection \<open>Positions returned by the scanners\<close>

lemma ParseContainerArray_body_Return:
  "ParseContainerArray_body P xs b a pool = Return (Some n) s \<Longrightarrow> b < n"
  unfolding ParseContainerArray_body_def ParseContainerArray_separator_def
    ParseContainerArray_item_def ParseContainerArray_push_def thenDo_def
  by (auto split: if_splits prod.splits option.splits sum.splits flow.splits)

lemma ParseContainerArray_loop_progress:
  "ParseContainerArray_loop P xs b a pool = Inr (Some n, s) \<Longrightarrow> b < n"
proof (induction P xs b a pool rule: ParseContainerArray_loop.induct)
  case (1 P xs b a pool)
  note run0 = "1.prems"[unfolded ParseContainerArray_loop.simps[of P xs b a pool]]
  show ?case
  proof (cases "ParseContainerArray_body P xs b a pool")
    case (Throw e)
    with run0 show ?thesis by (simp split: if_splits)
  next
    case (Return r s')
    with run0 have "r = Some n" and "b < length xs" by (auto split: if_splits)
    with Return show ?thesis by (auto dest: ParseContainerArray_body_Return)
  next
    case (Continue b' s')
    with run0 have lt: "b < length xs"
      and run: "ParseContainerArray_loop P xs b' (fst s') (snd s') = Inr (Some n, s)"
      by (auto split: if_splits)
    from "1.IH"[OF lt Continue run] have "b' < n" .
    moreover from Continue have "b < b'" by (rule ParseContainerArray_body_progress)
    ultimately show ?thesis by simp
  qed
qed

lemma ParseContainerArray_Scan_progress:
  "ParseContainerArray_Scan P xs a pool = Inr (Some n, s) \<Longrightarrow> 0 < n"
  unfolding ParseContainerArray_Scan_def ParseContainerArray_push_def
  by (auto split: if_splits sum.splits prod.splits option.splits flow.splits
           dest: ParseContainerArray_loop_progress)

definition advances :: "nat \<Rightarrow> 's flow \<Rightarrow> bool" where
  "advances b r = (case r of Continue b' s \<Rightarrow> b \<le> b' | Return (Some n) s \<Rightarrow> b < n | _ \<Rightarrow> True)"

lemma advances_thenDo:
  "advances b r \<Longrightarrow> (\<And>b' s. advances b' (f b' s)) \<Longrightarrow> advances b (thenDo r f)"
proof -
  assume r: "advances b r" and f: "\<And>b' s. advances b' (f b' s)"
  show ?thesis
  proof (cases r)
    case (Continue b' s)
    with r have le: "b \<le> b'" by (simp add: advances_def)
    from f[of b' s] le have "advances b (f b' s)"
      by (auto simp: advances_def split: flow.splits option.splits)
    with Continue show ?thesis by (simp add: thenDo_def)
  qed (use r in \<open>auto simp: thenDo_def\<close>)
qed

lemma advances_blocks:
  "advances b (ParseObject_PreKey xs b s)"
  "advances b (ParseObject_ExpectKey xs b s)"
  "advances b (ParseObject_PreColon xs b s)"
  "advances b (ParseObject_ExpectColon xs b s)"
  "advances b (ParseObject_PreValue xs b s)"
  "advances b (ParseObject_ExpectValue xs b s)"
  "advances b (ParseObject_PreComma xs b s)"
  "advances b (ParseObject_ExpectComma xs b s)"
  by (auto simp: advances_def ParseObject_PreKey_def ParseObject_ExpectKey_def
        ParseObject_PreColon_def ParseObject_ExpectColon_def ParseObject_PreValue_def
        ParseObject_ExpectValue_def ParseObject_PreComma_def ParseObject_ExpectComma_def
        suspend_def checkPassed_def Let_def
      split: prod.splits if_splits option.splits sum.splits)

lemma ParseObject_body_advances: "advances b (ParseObject_body xs b s)"
  unfolding ParseObject_body_def
  by (intro advances_thenDo advances_blocks)

lemma ParseObject_loop_progress:
  "ParseObject_loop xs b ob pool = Inr (Some n, s) \<Longrightarrow> b < n"
proof (induction xs b ob pool rule: ParseObject_loop.induct)
  case (1 xs b ob pool)
  note run0 = "1.prems"[unfolded ParseObject_loop.simps[of xs b ob pool]]
  from run0 have lt: "b < length xs" and ns: "po_state ob \<noteq> NotStarted"
    by (auto split: if_splits)
  show ?case
  proof (cases "ParseObject_body xs b (ob, pool)")
    case (Throw e)
    with run0 lt ns show ?thesis by simp
  next
    case (Return r s')
    with run0 lt ns have "r = Some n" by auto
    with Return ParseObject_body_advances[of b xs "(ob, pool)"] show ?thesis
      by (simp add: advances_def)
  next
    case (Continue b' s')
    with run0 lt ns have run: "ParseObject_loop xs b' (fst s') (snd s') = Inr (Some n, s)"
      by auto
    from "1.IH"[OF lt ns Continue run] have "b' < n" .
    moreover from Continue ParseObject_body_advances[of b xs "(ob, pool)"] have "b \<le> b'"
      by (simp add: advances_def)
    ultimately show ?thesis by simp
  qed
qed

lemma ParseObject_Scan_progress:
  "ParseObject_Scan xs ob pool = Inr (Some n, s) \<Longrightarrow> 0 < n"
  unfolding ParseObject_Scan_def
  by (auto split: if_splits dest: ParseObject_loop_progress)

lemma wsrun_le: "wsrun xs \<le> length xs"
  by (induction xs) auto

lemma wsrun_stop: "wsrun xs < length xs \<Longrightarrow> \<not> is_ws (xs ! wsrun xs)"
  by (induction xs) auto

lemma wsrun_before: "j < wsrun xs \<Longrightarrow> is_ws (xs ! j)"
  by (induction xs arbitrary: j) (auto simp: nth_Cons split: nat.splits if_splits)

lemma SkipWhitespace_Scan_first:
  "SkipWhitespace_Scan xs pool = (Some n, pool')
   \<Longrightarrow> n < length xs \<and> \<not> is_ws (xs ! n) \<and> (\<forall>j < n. is_ws (xs ! j))"
  using wsrun_le[of xs] wsrun_stop[of xs] wsrun_before[of _ xs]
  by (auto simp: SkipWhitespace_Scan_def Let_def split: if_splits)

lemma SkipWhitespace_Scan_no_progress:
  "xs \<noteq> [] \<Longrightarrow> \<not> is_ws (hd xs) \<Longrightarrow>
   SkipWhitespace_Scan xs pool = (Some 0, pool\<lparr>ws_finished := True, buffer := []\<rparr>)"
  by (cases xs) (auto simp: SkipWhitespace_Scan_def)

lemma ParseFloat_Scan_no_progress:
  "buffer pool \<noteq> [] \<Longrightarrow> xs \<noteq> [] \<Longrightarrow> \<not> numch (hd xs)
   \<Longrightarrow> snd (strtof (buffer pool)) = length (buffer pool)
   \<Longrightarrow> ParseFloat_Scan xs pool =
        Inr (Some 0, pool\<lparr>float_value := fst (strtof (buffer pool)), float_finished := True,
                          buffer := []\<rparr>)"
  by (cases xs) (auto simp: ParseFloat_Scan_def Let_def split: prod.splits)

text \<open>
  C5, as stated: the whitespace scanner, when the byte at \<open>Begin\<close> is not whitespace,
  returns a position strictly greater than \<open>Begin\<close>. It returns \<open>Begin\<close> itself
  (offset 0), as the test "Non-spaces" of the repository requires.
\<close>

theorem C5_counterexample:
  "SkipWhitespace_Scan ''z'' ParserPool_init = (Some 0, ParserPool_init)"
  by code_simp

text \<open>
  C5, amended: a scan call returns the not-finished sentinel or a position at or after
  \<open>Begin\<close>. The position is strictly greater than \<open>Begin\<close> for the string, array,
  nested-array and object scanners and for the float scanner when it starts a token.
  The whitespace scanner returns the position of the first byte that is not whitespace,
  inside the span; when the byte at \<open>Begin\<close> is already not whitespace it returns
  \<open>Begin\<close> itself. The float scanner resuming a buffered literal returns \<open>Begin\<close>
  itself when the first byte of the new span is not a numeric character.
\<close>

theorem C5_returned_positions:
  "(ParseString_Scan xs pool = Inr (Some n, pool') \<longrightarrow> 0 < n)
   \<and> (buffer pool = [] \<and> ParseFloat_Scan xs pool = Inr (Some n, pool') \<longrightarrow> 0 < n)
   \<and> (ParseArray_Scan P xs a pool = Inr (Some n, a', pool') \<longrightarrow> 0 < n)
   \<and> (ParseContainerArray_Scan P xs c pool = Inr (Some n, c', pool') \<longrightarrow> 0 < n)
   \<and> (ParseObject_Scan xs ob pool = Inr (Some n, ob', pool') \<longrightarrow> 0 < n)
   \<and> (SkipWhitespace_Scan xs pool = (Some n, pool')
        \<longrightarrow> n < length xs \<and> \<not> is_ws (xs ! n) \<and> (\<forall>j < n. is_ws (xs ! j)))
   \<and> (xs \<noteq> [] \<and> \<not> is_ws (hd xs)
        \<longrightarrow> SkipWhitespace_Scan xs pool = (Some 0, pool\<lparr>ws_finished := True, buffer := []\<rparr>))
   \<and> (buffer pool \<noteq> [] \<and> xs \<noteq> [] \<and> \<not> numch (hd xs)
        \<and> snd (strtof (buffer pool)) = length (buffer pool)
        \<longrightarrow> ParseFloat_Scan xs pool =
              Inr (Some 0, pool\<lparr>float_value := fst (strtof (buffer pool)), float_finished := True,
                                buffer := []\<rparr>))"
  using ParseString_Scan_progress[of xs pool n pool']
    ParseFloat_Scan_progress[of pool xs n pool']
    ParseArray_Scan_progress[of P xs a pool n "(a', pool')"]
    ParseContainerArray_Scan_progress[of P xs c pool n "(c', pool')"]
    ParseObject_Scan_progress[of xs ob pool n "(ob', pool')"]
    SkipWhitespace_Scan_first[of xs pool n pool']
    SkipWhitespace_Scan_no_progress[of xs pool]
    ParseFloat_Scan_no_progress[of pool xs]
  by blast

text \<open>
  Witness for C5: each scanner on an input of the repository's tests. The string
  \<open>""\<close>, the float \<open>123\<close> before a space, the arrays \<open>[]\<close> and \<open>[[]]\<close> and the
  object \<open>{}\<close> return positions after \<open>Begin\<close>; the whitespace scanner returns 1 on
  a space before \<open>z\<close> and 0 on \<open>z\<close>; the float scanner resuming a buffered \<open>1\<close>
  returns 0 on a comma.
\<close>

theorem C5_witness:
  "ParseString_Scan [CHR 0x22, CHR 0x22] ParserPool_init
     = Inr (Some 2, ParserPool_init) \<and> (0::nat) < 2
   \<and> buffer ParserPool_init = []
   \<and> ParseFloat_Scan ''123 '' ParserPool_init
     = Inr (Some 3, ParserPool_init\<lparr>float_value := Finite 123\<rparr>) \<and> (0::nat) < 3
   \<and> ParseArray_Scan LFloat ''[]'' ParseArray_init ParserPool_init
     = Inr (Some 2, ParseArray_init, ParserPool_init)
   \<and> ParseContainerArray_Scan LFloat ''[[]]'' ParseContainerArray_init ParserPool_init
     = Inr (Some 4, ParseContainerArray_init\<lparr>pc_out := [JArray []]\<rparr>, ParserPool_init) \<and> (0::nat) < 4
   \<and> ParseObject_Scan ''{}'' (ParseObject_init []) ParserPool_init
     = Inr (Some 2, ParseObject_init [], ParserPool_init)
   \<and> SkipWhitespace_Scan '' z'' ParserPool_init = (Some 1, ParserPool_init)
   \<and> (1::nat) < length '' z'' \<and> \<not> is_ws ('' z'' ! 1) \<and> is_ws ('' z'' ! 0)
   \<and> \<not> is_ws (hd ''z'')
   \<and> SkipWhitespace_Scan ''z'' ParserPool_init = (Some 0, ParserPool_init)
   \<and> \<not> numch (hd '','')
   \<and> ParseFloat_Scan '','' (ParserPool_init\<lparr>buffer := ''1'', float_finished := False\<rparr>)
     = Inr (Some 0, ParserPool_init\<lparr>float_value := Finite 1\<rparr>)"
proof -
  have s: "ParseString_Scan [CHR 0x22, CHR 0x22] ParserPool_init
     = Inr (Some 2, ParserPool_init)" by code_simp
  have b: "buffer ParserPool_init = []" by code_simp
  have f: "ParseFloat_Scan ''123 '' ParserPool_init
     = Inr (Some 3, ParserPool_init\<lparr>float_value := Finite 123\<rparr>)" by code_simp
  have a: "ParseArray_Scan LFloat ''[]'' ParseArray_init ParserPool_init
     = Inr (Some 2, ParseArray_init, ParserPool_init)" by code_simp
  have c: "ParseContainerArray_Scan LFloat ''[[]]'' ParseContainerArray_init ParserPool_init
     = Inr (Some 4, ParseContainerArray_init\<lparr>pc_out := [JArray []]\<rparr>, ParserPool_init)"
    by code_simp
  have ob: "ParseObject_Scan ''{}'' (ParseObject_init []) ParserPool_init
     = Inr (Some 2, ParseObject_init [], ParserPool_init)" by code_simp
  have w: "SkipWhitespace_Scan '' z'' ParserPool_init = (Some 1, ParserPool_init)" by code_simp
  have z: "''z'' \<noteq> [] \<and> \<not> is_ws (hd ''z'')" by code_simp
  have p: "ParserPool_init\<lparr>ws_finished := True, buffer := []\<rparr> = ParserPool_init" by code_simp
  have nb: "buffer (ParserPool_init\<lparr>buffer := ''1'', float_finished := False\<rparr>) \<noteq> []
     \<and> '','' \<noteq> [] \<and> \<not> numch (hd '','')
     \<and> snd (strtof (buffer (ParserPool_init\<lparr>buffer := ''1'', float_finished := False\<rparr>)))
       = length (buffer (ParserPool_init\<lparr>buffer := ''1'', float_finished := False\<rparr>))"
    by code_simp
  have fr: "(ParserPool_init\<lparr>buffer := ''1'', float_finished := False\<rparr>)
       \<lparr>float_value := fst (strtof (buffer (ParserPool_init\<lparr>buffer := ''1'', float_finished := False\<rparr>))),
        float_finished := True, buffer := []\<rparr> = ParserPool_init\<lparr>float_value := Finite 1\<rparr>"
    by code_simp
  note t1 = C5_returned_positions[where xs = "[CHR 0x22, CHR 0x22]" and pool = ParserPool_init
      and n = 2 and pool' = ParserPool_init]
  note t2 = C5_returned_positions[where xs = "''123 ''" and pool = ParserPool_init
      and n = 3 and pool' = "ParserPool_init\<lparr>float_value := Finite 123\<rparr>"]
  note t3 = C5_returned_positions[where xs = "''[[]]''" and pool = ParserPool_init and P = LFloat
      and n = 4 and c = ParseContainerArray_init
      and c' = "ParseContainerArray_init\<lparr>pc_out := [JArray []]\<rparr>" and pool' = ParserPool_init]
  note t4 = C5_returned_positions[where xs = "'' z''" and pool = ParserPool_init
      and n = 1 and pool' = ParserPool_init]
  note t5 = C5_returned_positions[where xs = "''z''" and pool = ParserPool_init]
  note t6 = C5_returned_positions[where xs = "'',''"
      and pool = "ParserPool_init\<lparr>buffer := ''1'', float_finished := False\<rparr>"]
  from t1 s have g1: "(0::nat) < 2" by blast
  from t2 b f have g2: "(0::nat) < 3" by blast
  from t3 c have g3: "(0::nat) < 4" by blast
  from t4 w have g4: "(1::nat) < length '' z'' \<and> \<not> is_ws ('' z'' ! 1) \<and> is_ws ('' z'' ! 0)"
    by simp
  from t5 z p have g5: "SkipWhitespace_Scan ''z'' ParserPool_init = (Some 0, ParserPool_init)"
    by simp
  from t6 nb have g6: "ParseFloat_Scan '','' (ParserPool_init\<lparr>buffer := ''1'', float_finished := False\<rparr>)
     = Inr (Some 0, (ParserPool_init\<lparr>buffer := ''1'', float_finished := False\<rparr>)
       \<lparr>float_value := fst (strtof (buffer (ParserPool_init\<lparr>buffer := ''1'', float_finished := False\<rparr>))),
        float_finished := True, buffer := []\<rparr>)" by blast
  from s g1 b f g2 a c g3 ob w g4 z g5 nb g6[unfolded fr] show ?thesis by blast
qed

subsection \<open>Literals the float scanner accepts\<close>

text \<open>
  The specification's words for the literals. A span spells a hexadecimal float when,
  after an optional sign, it starts with \<open>0x\<close> or \<open>0X\<close> and a hexadecimal digit
  (possibly after the point), as \<open>0x1p3\<close> does; it spells inf or nan when, after an
  optional sign, it starts with these letters in either case.
\<close>

definition hex_float_spelling :: "string \<Rightarrow> bool" where
  "hex_float_spelling xs =
     (let b = drop (sign_len xs) xs in
      3 \<le> length b \<and> b ! 0 = CHR ''0'' \<and> (b ! 1 = CHR ''x'' \<or> b ! 1 = CHR ''X'')
      \<and> (isxdigit (b ! 2) \<or> (b ! 2 = CHR ''.'' \<and> 4 \<le> length b \<and> isxdigit (b ! 3))))"

definition inf_nan_spelling :: "string \<Rightarrow> bool" where
  "inf_nan_spelling xs =
     (let b = drop (sign_len xs) xs in
      map tolower (take 3 b) = ''inf'' \<or> map tolower (take 3 b) = ''nan'')"

text \<open>
  The accepted literals: an optional sign, digits, an optional fractional part (at least
  one digit before or after the point), and an optional exponent \<open>e\<close> or \<open>E\<close> with
  an optional sign and digits.
\<close>

definition decimal_literal :: "string \<Rightarrow> bool" where
  "decimal_literal s =
     (\<exists>sg ip fp ex. s = sg @ ip @ fp @ ex
        \<and> (sg = [] \<or> sg = ''+'' \<or> sg = ''-'')
        \<and> list_all isdigit ip
        \<and> (fp = [] \<or> (\<exists>fd. fp = CHR ''.'' # fd \<and> list_all isdigit fd))
        \<and> (ip \<noteq> [] \<or> 2 \<le> length fp)
        \<and> (ex = [] \<or> (\<exists>e es ed. ex = e # es @ ed \<and> (e = CHR ''e'' \<or> e = CHR ''E'')
                \<and> (es = [] \<or> es = ''+'' \<or> es = ''-'') \<and> ed \<noteq> [] \<and> list_all isdigit ed)))"

lemma ParseFloat_Scan_reject:
  assumes "buffer pool = []" and "numrun xs < snd (strtof xs)"
  shows "ParseFloat_Scan xs pool = Inl InvalidFloat"
proof -
  obtain v n where s: "strtof xs = (v, n)" by (cases "strtof xs")
  with assms(2) have lt: "numrun xs < n" by simp
  from strtof_le[of xs] s have "n \<le> length xs" by simp
  with lt have a: "numrun xs \<noteq> length xs" and b: "numrun (take n xs) \<noteq> n"
    by (auto simp: numrun_take)
  from assms(1) s a b show ?thesis
    by (simp add: ParseFloat_Scan_def Let_def)
qed

lemma map_take_length: "map f (take k b) = t \<Longrightarrow> length t \<le> length b"
  by (metis length_map length_take min.cobounded1)

lemma tolower_code:
  "tolower c = d \<Longrightarrow> code_of d = (if inrange CHR ''A'' c CHR ''Z'' then code_of c + 32 else code_of c)"
  by (auto simp: tolower_def code_of_def inrange_def of_char_of)

lemma code_of_eq: "(c = d) = (code_of c = code_of d)"
  by (auto simp: code_of_def)

lemma tolower_inf_nan:
  "tolower c = CHR ''i'' \<or> tolower c = CHR ''n'' \<Longrightarrow>
   \<not> numch c \<and> \<not> isspace c \<and> \<not> isdigit c \<and> c \<noteq> CHR ''.'' \<and> c \<noteq> CHR ''0''
   \<and> c \<noteq> CHR ''-'' \<and> c \<noteq> CHR ''+''"
  by (auto dest!: tolower_code simp: numch_def isspace_def isdigit_def inrange_def code_of_eq[of c]
        split: if_splits) (simp_all add: code_of_def)

lemma numrun_bound: "i < length xs \<Longrightarrow> \<not> numch (xs ! i) \<Longrightarrow> numrun xs \<le> i"
  by (induction xs arbitrary: i) (auto simp: nth_Cons split: nat.splits)

lemma sign_not_space: "sign_len xs = 1 \<Longrightarrow> takeWhile isspace xs = []"
  by (cases xs) (auto simp: sign_len_def isspace_def code_of_def split: if_splits)

lemma sign_len_cases: "sign_len xs = 0 \<or> sign_len xs = 1"
  by (simp add: sign_len_def)

lemma no_space_strtof:
  assumes "takeWhile isspace xs = []"
  shows "strtof xs =
     (let sl = sign_len xs; sg = (if sign_neg xs then - 1 else 1); b = drop sl xs
      in case hex_body b of
           Some (v, n) \<Rightarrow> (Finite (sg * v), sl + n)
         | None \<Rightarrow>
             (case decimal_body b of
                Some (v, n) \<Rightarrow> (Finite (sg * v), sl + n)
              | None \<Rightarrow>
                  (case special_body xs of
                     Some (v, n) \<Rightarrow> (v, sl + n)
                   | None \<Rightarrow> (Finite 0, 0))))"
  using assms by (auto simp: strtof_def Let_def split: option.splits prod.splits)

lemma hex_body_len:
  assumes "3 \<le> length b" and "b ! 0 = CHR ''0''" and "b ! 1 = CHR ''x'' \<or> b ! 1 = CHR ''X''"
    and "isxdigit (b ! 2) \<or> (b ! 2 = CHR ''.'' \<and> 4 \<le> length b \<and> isxdigit (b ! 3))"
  shows "\<exists>v n. hex_body b = Some (v, n) \<and> 3 \<le> n"
proof -
  from assms(1) obtain c0 c1 c2 rest where b: "b = c0 # c1 # c2 # rest"
    by (cases b; cases "tl b"; cases "tl (tl b)") auto
  with assms have c: "c0 = CHR ''0''" "c1 = CHR ''x'' \<or> c1 = CHR ''X''"
    and d: "isxdigit c2 \<or> (c2 = CHR ''.'' \<and> rest \<noteq> [] \<and> isxdigit (hd rest))"
    by (cases rest; auto)+
  have nd: "\<not> isxdigit CHR ''.''" by (simp add: isxdigit_def isdigit_def inrange_def code_of_def)
  from d show ?thesis
  proof
    assume "isxdigit c2"
    then show ?thesis using b c
      by (auto simp: hex_body_def Let_def split: prod.splits)
  next
    assume "c2 = CHR ''.'' \<and> rest \<noteq> [] \<and> isxdigit (hd rest)"
    then obtain c3 r3 where "c2 = CHR ''.''" "rest = c3 # r3" "isxdigit c3"
      by (auto simp: neq_Nil_conv)
    then show ?thesis using b c nd
      by (auto simp: hex_body_def Let_def split: prod.splits)
  qed
qed

lemma strtof_hex:
  assumes "hex_float_spelling xs"
  shows "numrun xs < snd (strtof xs)"
proof -
  let ?sl = "sign_len xs"
  let ?b = "drop ?sl xs"
  from assms have len: "3 \<le> length ?b" and b0: "?b ! 0 = CHR ''0''"
    and b1: "?b ! 1 = CHR ''x'' \<or> ?b ! 1 = CHR ''X''"
    and b2: "isxdigit (?b ! 2) \<or> (?b ! 2 = CHR ''.'' \<and> 4 \<le> length ?b \<and> isxdigit (?b ! 3))"
    by (simp_all add: hex_float_spelling_def Let_def)
  from hex_body_len[OF len b0 b1 b2] obtain v n where h: "hex_body ?b = Some (v, n)" and n: "3 \<le> n"
    by blast
  have nosp: "takeWhile isspace xs = []"
  proof (cases "?sl = 1")
    case True
    then show ?thesis by (rule sign_not_space)
  next
    case False
    with sign_len_cases[of xs] have z: "?sl = 0" by simp
    with len have ne: "xs \<noteq> []" by auto
    with z b0 have "hd xs = CHR ''0''" by (simp add: hd_conv_nth)
    note this ne
    then show ?thesis by (cases xs) (auto simp: isspace_def code_of_def)
  qed
  from h have s: "snd (strtof xs) = ?sl + n"
    by (simp add: no_space_strtof[OF nosp] Let_def)
  from len b1 have "?sl + 1 < length xs" and "\<not> numch (xs ! (?sl + 1))"
    by (auto simp: numch_def inrange_def code_of_def)
  then have "numrun xs \<le> ?sl + 1" by (rule numrun_bound)
  with s n show ?thesis by simp
qed

lemma strtof_inf_nan:
  assumes "inf_nan_spelling xs"
  shows "numrun xs < snd (strtof xs)"
proof -
  let ?sl = "sign_len xs"
  let ?b = "drop ?sl xs"
  from assms have t: "map tolower (take 3 ?b) = ''inf'' \<or> map tolower (take 3 ?b) = ''nan''"
    by (simp add: inf_nan_spelling_def Let_def)
  then have len: "3 \<le> length ?b"
    using map_take_length[of tolower 3 ?b "''inf''"] map_take_length[of tolower 3 ?b "''nan''"]
    by auto
  then obtain c0 r0 where b: "?b = c0 # r0" by (cases ?b) auto
  with t have lo: "tolower c0 = CHR ''i'' \<or> tolower c0 = CHR ''n''" by auto
  note f = tolower_inf_nan[OF lo]
  have nosp: "takeWhile isspace xs = []"
  proof (cases "?sl = 1")
    case True
    then show ?thesis by (rule sign_not_space)
  next
    case False
    with sign_len_cases[of xs] have z: "?sl = 0" by simp
    with b f show ?thesis by simp
  qed
  from b f have h: "hex_body ?b = None" by (simp add: hex_body_def)
  from b f have d: "decimal_body ?b = None" by (simp add: decimal_body_def)
  have "\<exists>v n. special_body xs = Some (v, n) \<and> 3 \<le> n"
  proof (cases "map tolower (take 8 ?b) = ''infinity''")
    case True
    then show ?thesis by (simp add: special_body_def Let_def)
  next
    case inf8: False
    show ?thesis
    proof (cases "map tolower (take 3 ?b) = ''inf''")
      case True
      with inf8 show ?thesis by (simp add: special_body_def Let_def)
    next
      case False
      with t have "map tolower (take 3 ?b) = ''nan''" by blast
      with inf8 False show ?thesis by (simp add: special_body_def Let_def)
    qed
  qed
  then obtain v n where sp: "special_body xs = Some (v, n)" and n: "3 \<le> n" by blast
  from h d sp have s: "snd (strtof xs) = ?sl + n"
    by (simp add: no_space_strtof[OF nosp] Let_def)
  from len have l: "?sl < length xs" by simp
  from b f have "\<not> numch (xs ! ?sl)" by (simp add: nth_via_drop)
  note l this
  then have "numrun xs \<le> ?sl" by (rule numrun_bound)
  with s n show ?thesis by simp
qed

lemma list_all_takeWhile: "list_all P (takeWhile P xs)"
  by (induction xs) auto

lemma take_takeWhile_len: "take (length (takeWhile P xs)) xs = takeWhile P xs"
  by (induction xs) auto

lemma take_sign: "take (sign_len xs) xs = [] \<or> take (sign_len xs) xs = ''+'' \<or> take (sign_len xs) xs = ''-''"
  by (cases xs) (auto simp: sign_len_def)

lemma exponent_part_shape:
  assumes "exponent_part lo up ys = (e, k)"
  shows "k = 0 \<or> (\<exists>c es ed. take k ys = c # es @ ed \<and> (c = lo \<or> c = up)
            \<and> (es = [] \<or> es = ''+'' \<or> es = ''-'') \<and> ed \<noteq> [] \<and> list_all isdigit ed)"
proof (cases "ys \<noteq> [] \<and> (hd ys = lo \<or> hd ys = up)")
  case False
  with assms show ?thesis by (auto simp: exponent_part_def)
next
  case True
  then obtain c r where ys: "ys = c # r" and c: "c = lo \<or> c = up" by (cases ys) auto
  let ?sl = "sign_len r"
  let ?ds = "takeWhile isdigit (drop ?sl r)"
  show ?thesis
  proof (cases "?ds = []")
    case True
    with assms ys c show ?thesis by (auto simp: exponent_part_def Let_def)
  next
    case False
    with assms ys c have k: "k = 1 + ?sl + length ?ds" by (auto simp: exponent_part_def Let_def)
    have "take (?sl + length ?ds) r = take ?sl r @ take (length ?ds) (drop ?sl r)"
      by (simp add: take_add)
    then have "take k ys = c # take ?sl r @ ?ds"
      using k ys by (simp add: take_takeWhile_len)
    with c False take_sign[of r] list_all_takeWhile[of isdigit "drop ?sl r"] show ?thesis
      by blast
  qed
qed

lemma decimal_body_shape:
  assumes "decimal_body b = Some (v, m)"
  shows "\<exists>ip fp ex. take m b = ip @ fp @ ex
        \<and> list_all isdigit ip
        \<and> (fp = [] \<or> (\<exists>fd. fp = CHR ''.'' # fd \<and> list_all isdigit fd))
        \<and> (ip \<noteq> [] \<or> 2 \<le> length fp)
        \<and> (ex = [] \<or> (\<exists>e es ed. ex = e # es @ ed \<and> (e = CHR ''e'' \<or> e = CHR ''E'')
                \<and> (es = [] \<or> es = ''+'' \<or> es = ''-'') \<and> ed \<noteq> [] \<and> list_all isdigit ed))"
proof -
  define ip where "ip = takeWhile isdigit b"
  define r where "r = drop (length ip) b"
  define dot where "dot = (r \<noteq> [] \<and> hd r = CHR ''.'')"
  define fd where "fd = (if dot then takeWhile isdigit (tl r) else [])"
  define fp where "fp = (if dot then CHR ''.'' # fd else [])"
  define mlen where "mlen = length ip + (if dot then 1 + length fd else 0)"
  obtain e elen where ex: "exponent_part CHR ''e'' CHR ''E'' (drop mlen b) = (e, elen)"
    by (cases "exponent_part CHR ''e'' CHR ''E'' (drop mlen b)")
  have unf: "decimal_body b =
      (if ip = [] \<and> fd = [] then None
       else Some (of_nat (digits_val (ip @ fd)) * scale 10 (e - int (length fd)), mlen + elen))"
    using ex decimal_body_def[of b, unfolded Let_def, folded ip_def, folded r_def,
        folded dot_def, folded fd_def, folded mlen_def]
    by simp
  from assms unf have ne: "\<not> (ip = [] \<and> fd = [])" and m: "m = mlen + elen"
    by (auto split: if_splits)
  have ipt: "take (length ip) b = ip" unfolding ip_def by (rule take_takeWhile_len)
  have mant: "take mlen b = ip @ fp"
  proof (cases dot)
    case False
    then show ?thesis by (simp add: mlen_def fp_def ipt)
  next
    case True
    then obtain t where rt: "r = CHR ''.'' # t" unfolding dot_def by (cases r) auto
    with True have fdt: "fd = takeWhile isdigit t" by (simp add: fd_def)
    have "take (length ip + (1 + length fd)) b
          = take (length ip) b @ take (1 + length fd) r"
      unfolding r_def by (simp only: take_add)
    also have "\<dots> = ip @ CHR ''.'' # fd"
      by (simp add: ipt rt fdt take_takeWhile_len)
    finally show ?thesis using True by (simp add: mlen_def fp_def)
  qed
  have "take m b = take mlen b @ take elen (drop mlen b)"
    unfolding m by (simp only: take_add)
  with mant have t: "take m b = ip @ fp @ take elen (drop mlen b)" by simp
  have ipok: "list_all isdigit ip" unfolding ip_def by (rule list_all_takeWhile)
  have fpok: "fp = [] \<or> (\<exists>fd. fp = CHR ''.'' # fd \<and> list_all isdigit fd)"
    by (simp add: fp_def fd_def list_all_takeWhile)
  from ne have nonempty: "ip \<noteq> [] \<or> 2 \<le> length fp"
    by (cases dot) (auto simp: fp_def fd_def Suc_le_eq)
  from exponent_part_shape[OF ex]
  have exok: "take elen (drop mlen b) = [] \<or> (\<exists>e es ed. take elen (drop mlen b) = e # es @ ed
        \<and> (e = CHR ''e'' \<or> e = CHR ''E'')
        \<and> (es = [] \<or> es = ''+'' \<or> es = ''-'') \<and> ed \<noteq> [] \<and> list_all isdigit ed)"
    by auto
  from t ipok fpok nonempty exok show ?thesis by blast
qed

lemma isspace_not_numch: "isspace c \<Longrightarrow> \<not> numch c"
  by (auto simp: isspace_def numch_def inrange_def code_of_def)

lemma hex_body_Some:
  "hex_body b = Some (v, m) \<Longrightarrow> 2 \<le> length b \<and> (b ! 1 = CHR ''x'' \<or> b ! 1 = CHR ''X'') \<and> 2 \<le> m"
  by (auto simp: hex_body_def Let_def split: if_splits prod.splits)

lemma special_body_Some:
  assumes "special_body xs = Some (v, m)"
  shows "3 \<le> m \<and> drop (sign_len xs) xs \<noteq> []
       \<and> (tolower (hd (drop (sign_len xs) xs)) = CHR ''i''
           \<or> tolower (hd (drop (sign_len xs) xs)) = CHR ''n'')"
proof -
  let ?b = "drop (sign_len xs) xs"
  have hdmap: "\<And>k t c. map tolower (take k ?b) = c # t \<Longrightarrow> ?b \<noteq> [] \<and> tolower (hd ?b) = c"
    by (cases ?b) (auto simp: take_Cons split: nat.splits)
  show ?thesis
  proof (cases "map tolower (take 8 ?b) = ''infinity''")
    case True
    with assms have "m = 8" by (simp add: special_body_def Let_def)
    with hdmap[OF True] show ?thesis by simp
  next
    case inf8: False
    show ?thesis
    proof (cases "map tolower (take 3 ?b) = ''inf''")
      case True
      with assms inf8 have "m = 3" by (simp add: special_body_def Let_def)
      with hdmap[OF True] show ?thesis by simp
    next
      case inf3: False
      show ?thesis
      proof (cases "map tolower (take 3 ?b) = ''nan''")
        case True
        with assms inf8 inf3 have "3 \<le> m"
          by (auto simp: special_body_def Let_def split: if_splits)
        with hdmap[OF True] show ?thesis by simp
      next
        case False
        with assms inf8 inf3 show ?thesis by (simp add: special_body_def Let_def)
      qed
    qed
  qed
qed

lemma strtof_numch_decimal:
  assumes n: "n = snd (strtof xs)" and n0: "n \<noteq> 0" and num: "\<And>i. i < n \<Longrightarrow> numch (xs ! i)"
  shows "decimal_literal (take n xs)"
proof -
  from strtof_le[of xs] n have le: "n \<le> length xs" by simp
  from n0 le have ne: "xs \<noteq> []" by auto
  from num[of 0] n0 ne have "numch (hd xs)" by (simp add: hd_conv_nth)
  then have "\<not> isspace (hd xs)" using isspace_not_numch by blast
  with ne have nosp: "takeWhile isspace xs = []" by (cases xs) auto
  let ?sl = "sign_len xs"
  let ?b = "drop ?sl xs"
  note st = no_space_strtof[OF nosp, unfolded Let_def]
  show ?thesis
  proof (cases "hex_body ?b")
    case (Some a)
    obtain v m where a: "a = (v, m)" by (cases a)
    from hex_body_Some[of ?b v m] Some a
    have l: "2 \<le> length ?b" and x: "?b ! 1 = CHR ''x'' \<or> ?b ! 1 = CHR ''X''" and m: "2 \<le> m"
      by simp_all
    from st Some a n have "n = ?sl + m" by simp
    with m have "?sl + 1 < n" by simp
    from num[OF this] l have "numch (?b ! 1)" by simp
    with x show ?thesis by (auto simp: numch_def inrange_def code_of_def)
  next
    case None
    note h = this
    show ?thesis
    proof (cases "decimal_body ?b")
      case (Some a)
      obtain v m where a: "a = (v, m)" by (cases a)
      from st h Some a n have nm: "n = ?sl + m" by simp
      have tk: "take n xs = take ?sl xs @ take m ?b" unfolding nm by (simp only: take_add)
      from decimal_body_shape[of ?b v m] Some a
      obtain ip fp ex where t: "take m ?b = ip @ fp @ ex"
        and c1: "list_all isdigit ip"
        and c2: "fp = [] \<or> (\<exists>fd. fp = CHR ''.'' # fd \<and> list_all isdigit fd)"
        and c3: "ip \<noteq> [] \<or> 2 \<le> length fp"
        and c4: "ex = [] \<or> (\<exists>e es ed. ex = e # es @ ed \<and> (e = CHR ''e'' \<or> e = CHR ''E'')
                \<and> (es = [] \<or> es = ''+'' \<or> es = ''-'') \<and> ed \<noteq> [] \<and> list_all isdigit ed)"
        by blast
      from tk t have "take n xs = take ?sl xs @ ip @ fp @ ex" by simp
      with take_sign[of xs] c1 c2 c3 c4 show ?thesis
        unfolding decimal_literal_def by blast
    next
      case None
      note d = this
      show ?thesis
      proof (cases "special_body xs")
        case (Some a)
        obtain v m where a: "a = (v, m)" by (cases a)
        from special_body_Some[of xs v m] Some a
        have m: "3 \<le> m" and bne: "?b \<noteq> []"
          and lo: "tolower (hd ?b) = CHR ''i'' \<or> tolower (hd ?b) = CHR ''n''" by simp_all
        from st h d Some a n have "n = ?sl + m" by simp
        with m have "?sl < n" by simp
        from num[OF this] bne have "numch (hd ?b)" by (simp add: hd_drop_conv_nth)
        with tolower_inf_nan[OF lo] show ?thesis by simp
      next
        case None
        with st h d n n0 show ?thesis by simp
      qed
    qed
  qed
qed

lemma ParseFloat_Scan_accepts_decimal:
  assumes "buffer pool = []" and "ParseFloat_Scan xs pool = Inr (Some n, pool')"
  shows "decimal_literal (take n xs)"
proof -
  from assms have n: "n = snd (strtof xs)" and n0: "n \<noteq> 0" and run: "numrun (take n xs) = n"
    by (auto simp: ParseFloat_Scan_def Let_def split: prod.splits if_splits)
  from strtof_le[of xs] n have le: "n \<le> length xs" by simp
  with run have "list_all numch (take n xs)" using numrun_all[of "take n xs"] by simp
  then have num: "\<And>i. i < n \<Longrightarrow> numch (xs ! i)"
    using le by (simp add: list_all_length)
  from n n0 num show ?thesis by (rule strtof_numch_decimal)
qed

lemma list_all_take_numrun: "list_all numch (take (numrun xs) xs)"
  by (induction xs) auto

lemma ParseFloat_Scan_resumed_accepts_decimal:
  assumes "buffer pool \<noteq> []" and "list_all numch (buffer pool)"
    and "ParseFloat_Scan xs pool = Inr (Some n, pool')"
  shows "decimal_literal (buffer pool @ take n xs)"
proof -
  let ?s = "buffer pool @ take n xs"
  from assms(1,3) have k: "n = numrun xs" and st: "snd (strtof ?s) = length ?s"
    by (auto simp: ParseFloat_Scan_def Let_def split: prod.splits if_splits)
  from assms(2) k list_all_take_numrun[of xs] have "list_all numch ?s" by simp
  then have num: "\<And>i. i < length ?s \<Longrightarrow> numch (?s ! i)" by (simp only: list_all_length)
  from assms(1) have n0: "length ?s \<noteq> 0" by simp
  have full: "take (length ?s) ?s = ?s" by (rule take_all) (rule order_refl)
  from strtof_numch_decimal[OF st[symmetric] n0 num] show ?thesis
    by (simp only: full)
qed

text \<open>
  C6: when a token starts in the span (the scratch buffer is empty) and the leading
  characters of the span spell a hexadecimal float or inf or nan, the float scanner
  raises the invalid-float error. What it accepts is a decimal literal only: the text it
  consumed when it completes in the call that started the token, and the buffered text
  together with the text consumed when it completes a resumed token.
\<close>

theorem C6_float_rejects_hex_inf_nan:
  "(buffer pool = [] \<and> (hex_float_spelling xs \<or> inf_nan_spelling xs)
      \<longrightarrow> ParseFloat_Scan xs pool = Inl InvalidFloat)
   \<and> (buffer pool = [] \<and> ParseFloat_Scan xs pool = Inr (Some n, pool')
      \<longrightarrow> decimal_literal (take n xs))
   \<and> (buffer pool \<noteq> [] \<and> list_all numch (buffer pool)
        \<and> ParseFloat_Scan xs pool = Inr (Some n, pool')
      \<longrightarrow> decimal_literal (buffer pool @ take n xs))"
  using ParseFloat_Scan_reject[of pool xs] strtof_hex[of xs] strtof_inf_nan[of xs]
    ParseFloat_Scan_accepts_decimal[of pool xs n pool']
    ParseFloat_Scan_resumed_accepts_decimal[of pool xs n pool']
  by blast

text \<open>
  Witness for C6: \<open>0x1p3\<close> (a test of the repository), \<open>-inf\<close> before a comma and
  \<open>NaN\<close> are rejected; \<open>-1.5e+3\<close> before a comma is accepted in one call and \<open>1.5\<close>
  in two, and both are decimal literals.
\<close>

theorem C6_witness:
  "buffer ParserPool_init = []
   \<and> hex_float_spelling ''0x1p3''
   \<and> ParseFloat_Scan ''0x1p3'' ParserPool_init = Inl InvalidFloat
   \<and> inf_nan_spelling ''-inf,''
   \<and> ParseFloat_Scan ''-inf,'' ParserPool_init = Inl InvalidFloat
   \<and> inf_nan_spelling ''NaN''
   \<and> ParseFloat_Scan ''NaN'' ParserPool_init = Inl InvalidFloat
   \<and> ParseFloat_Scan ''-1.5e+3,'' ParserPool_init
       = Inr (Some 7, ParserPool_init\<lparr>float_value := Finite (- 1500)\<rparr>)
   \<and> decimal_literal ''-1.5e+3''
   \<and> list_all numch ''1.''
   \<and> ParseFloat_Scan ''5]'' (ParserPool_init\<lparr>buffer := ''1.'', float_finished := False\<rparr>)
       = Inr (Some 1, ParserPool_init\<lparr>float_value := Finite (3 / 2)\<rparr>)
   \<and> decimal_literal ''1.5''"
proof -
  have b: "buffer ParserPool_init = []" by code_simp
  have h: "hex_float_spelling ''0x1p3''" by code_simp
  have i: "inf_nan_spelling ''-inf,''" by code_simp
  have na: "inf_nan_spelling ''NaN''" by code_simp
  have a: "ParseFloat_Scan ''-1.5e+3,'' ParserPool_init
       = Inr (Some 7, ParserPool_init\<lparr>float_value := Finite (- 1500)\<rparr>)" by code_simp
  have nb: "buffer (ParserPool_init\<lparr>buffer := ''1.'', float_finished := False\<rparr>) \<noteq> []
     \<and> list_all numch (buffer (ParserPool_init\<lparr>buffer := ''1.'', float_finished := False\<rparr>))"
    by code_simp
  have la: "list_all numch ''1.''" by code_simp
  have r: "ParseFloat_Scan ''5]'' (ParserPool_init\<lparr>buffer := ''1.'', float_finished := False\<rparr>)
       = Inr (Some 1, ParserPool_init\<lparr>float_value := Finite (3 / 2)\<rparr>)" by code_simp
  from C6_float_rejects_hex_inf_nan[of ParserPool_init "''0x1p3''"] b h
  have w1: "ParseFloat_Scan ''0x1p3'' ParserPool_init = Inl InvalidFloat" by blast
  from C6_float_rejects_hex_inf_nan[of ParserPool_init "''-inf,''"] b i
  have w2: "ParseFloat_Scan ''-inf,'' ParserPool_init = Inl InvalidFloat" by blast
  from C6_float_rejects_hex_inf_nan[of ParserPool_init "''NaN''"] b na
  have w3: "ParseFloat_Scan ''NaN'' ParserPool_init = Inl InvalidFloat" by blast
  from C6_float_rejects_hex_inf_nan[of ParserPool_init "''-1.5e+3,''" 7
      "ParserPool_init\<lparr>float_value := Finite (- 1500)\<rparr>"] b a
  have "decimal_literal (take 7 ''-1.5e+3,'')" by blast
  then have w4: "decimal_literal ''-1.5e+3''" by simp
  from C6_float_rejects_hex_inf_nan[of "ParserPool_init\<lparr>buffer := ''1.'', float_finished := False\<rparr>"
      "''5]''" 1 "ParserPool_init\<lparr>float_value := Finite (3 / 2)\<rparr>"] nb r
  have "decimal_literal (buffer (ParserPool_init\<lparr>buffer := ''1.'', float_finished := False\<rparr>)
          @ take 1 ''5]'')" by blast
  then have w5: "decimal_literal ''1.5''" by simp
  from b h w1 i w2 na w3 a w4 la r w5 show ?thesis by blast
qed

subsection \<open>The state of a combinator when a scan completes\<close>

text \<open>
  Invariants of the three combinators, kept by every scan and every \<open>Swap\<close>. For the arrays:
  \<open>had_comma\<close> is unset whenever \<open>out\<close> is empty or the array is finished. A scan that
  completes leaves \<open>finished\<close> set and \<open>began\<close> and \<open>had_comma\<close> unset; \<open>out\<close> keeps the
  decoded elements until \<open>Swap\<close> takes them.
\<close>

definition arr_inv :: "ParseArray \<Rightarrow> bool" where
  "arr_inv a = ((pa_out a = [] \<or> pa_finished a) \<longrightarrow> \<not> pa_had_comma a)"

definition arr_done :: "leaf \<Rightarrow> ParseArray \<Rightarrow> ParserPool \<Rightarrow> bool" where
  "arr_done P a pool =
     (pa_finished a \<and> \<not> pa_began a \<and> \<not> pa_had_comma a \<and> leaf_Finished P pool \<and> buffer pool = [])"

lemma ParseString_loop_Finished:
  "ParseString_loop cs i p = Inr (Some n, pool') \<Longrightarrow> ps_finished (string_parser pool')"
proof (induction cs arbitrary: i p)
  case Nil
  then show ?case by simp
next
  case (Cons c cs)
  show ?case
  proof (cases "ParseString_scan c p")
    case (Inl e)
    with Cons.prems show ?thesis by simp
  next
    case (Inr q)
    obtain fin p1 where q: "q = (fin, p1)" by (cases q)
    show ?thesis
    proof (cases fin)
      case True
      with Cons.prems Inr q show ?thesis by auto
    next
      case False
      with Cons.prems Inr q have "ParseString_loop cs (i + 1) p1 = Inr (Some n, pool')" by simp
      from Cons.IH[OF this] show ?thesis .
    qed
  qed
qed

lemma leaf_Scan_Finished:
  "leaf_Scan P xs pool = Inr (Some n, pool') \<Longrightarrow> leaf_Finished P pool'"
proof (cases P)
  case LFloat
  assume "leaf_Scan P xs pool = Inr (Some n, pool')"
  with LFloat show ?thesis
    by (auto simp: leaf_Scan_def leaf_Finished_def ParseFloat_Scan_def Let_def
        split: if_splits prod.splits)
next
  case LString
  assume r: "leaf_Scan P xs pool = Inr (Some n, pool')"
  from r LString show ?thesis
    by (auto simp: leaf_Scan_def leaf_Finished_def ParseString_Scan_def split: if_splits
        dest: ParseString_loop_Finished)
qed

lemma SkipWhitespace_Scan_leaf:
  "SkipWhitespace_Scan xs pool = (r, pool') \<Longrightarrow> leaf_Finished P pool' = leaf_Finished P pool"
  by (cases P) (auto simp: SkipWhitespace_Scan_def leaf_Finished_def Let_def split: if_splits)

definition arr_ok :: "leaf \<Rightarrow> ParseArray \<times> ParserPool \<Rightarrow> bool" where
  "arr_ok P s = ((pa_out (fst s) = [] \<longrightarrow> \<not> pa_had_comma (fst s)) \<and> leaf_Finished P (snd s))"

definition arr_post :: "leaf \<Rightarrow> (ParseArray \<times> ParserPool) flow \<Rightarrow> bool" where
  "arr_post P r =
     (case r of
        Throw e \<Rightarrow> True
      | Return None s \<Rightarrow> \<not> pa_finished (fst s) \<and> (pa_out (fst s) = [] \<longrightarrow> \<not> pa_had_comma (fst s))
      | Return (Some n) s \<Rightarrow> arr_done P (fst s) (snd s)
      | Continue b' s \<Rightarrow> arr_ok P s)"

lemma ParseArray_separator_post:
  "arr_ok P (a, pool) \<Longrightarrow> arr_post P (ParseArray_separator xs b a pool)"
  unfolding ParseArray_separator_def arr_post_def arr_ok_def arr_done_def
  by (auto split: prod.splits option.splits
        dest: SkipWhitespace_Scan_buffer simp: SkipWhitespace_Scan_leaf)

lemma ParseArray_item_post:
  "arr_ok P s \<Longrightarrow> arr_post P (ParseArray_item P xs b s)"
  unfolding ParseArray_item_def arr_post_def arr_ok_def arr_done_def
  by (auto split: prod.splits option.splits sum.splits
        dest: leaf_Scan_Finished)

lemma arr_post_thenDo:
  "arr_post P r \<Longrightarrow> (\<And>b s. arr_ok P s \<Longrightarrow> arr_post P (f b s)) \<Longrightarrow> arr_post P (thenDo r f)"
  by (cases r) (auto simp: thenDo_def arr_post_def)

lemma ParseArray_body_post:
  "arr_ok P (a, pool) \<Longrightarrow> arr_post P (ParseArray_body P xs b a pool)"
  unfolding ParseArray_body_def
  by (intro arr_post_thenDo ParseArray_separator_post ParseArray_item_post)

definition arr_result :: "leaf \<Rightarrow> nat option \<Rightarrow> ParseArray \<Rightarrow> ParserPool \<Rightarrow> bool" where
  "arr_result P r a pool =
     ((r = None \<longrightarrow> \<not> pa_finished a \<and> (pa_out a = [] \<longrightarrow> \<not> pa_had_comma a))
      \<and> (r \<noteq> None \<longrightarrow> arr_done P a pool))"

lemma ParseArray_loop_inv:
  assumes "ParseArray_loop P xs b a pool = Inr (r, a', pool')" and "arr_ok P (a, pool)"
  shows "arr_result P r a' pool'"
  using assms
proof (induction P xs b a pool rule: ParseArray_loop.induct)
  case (1 P xs b a pool)
  note run0 = "1.prems"(1)[unfolded ParseArray_loop.simps[of P xs b a pool]]
  note post = ParseArray_body_post[OF "1.prems"(2), of xs b]
  show ?case
  proof (cases "b < length xs")
    case False
    with run0 "1.prems"(2) show ?thesis by (auto simp: arr_result_def arr_ok_def)
  next
    case lt: True
    show ?thesis
    proof (cases "ParseArray_body P xs b a pool")
      case (Throw e)
      with run0 lt show ?thesis by simp
    next
      case (Return r0 s')
      with run0 lt have "r0 = r" "s' = (a', pool')" by auto
      with post Return show ?thesis by (cases r) (auto simp: arr_post_def arr_result_def)
    next
      case (Continue b' s')
      with run0 lt have run: "ParseArray_loop P xs b' (fst s') (snd s') = Inr (r, a', pool')"
        by auto
      from post Continue have "arr_ok P (fst s', snd s')" by (simp add: arr_post_def)
      from "1.IH"[OF lt Continue run this] show ?thesis .
    qed
  qed
qed

lemma ParseArray_Scan_inv:
  assumes "ParseArray_Scan P xs a pool = Inr (r, a', pool')" and "arr_inv a"
  shows "arr_result P r a' pool'"
proof (cases "leaf_Finished P pool")
  case False
  show ?thesis
  proof (cases "leaf_Scan P xs pool")
    case (Inl e)
    with assms False show ?thesis by (simp add: ParseArray_Scan_def)
  next
    case (Inr q)
    obtain r1 p1 where q: "q = (r1, p1)" by (cases q)
    show ?thesis
    proof (cases r1)
      case None
      with assms False Inr q show ?thesis
        by (auto simp: ParseArray_Scan_def arr_inv_def arr_result_def)
    next
      case (Some n)
      with assms False Inr q
      have "ParseArray_loop P xs n (a\<lparr>pa_out := pa_out a @ [leaf_value P p1], pa_had_comma := False\<rparr>) p1
            = Inr (r, a', pool')" by (simp add: ParseArray_Scan_def)
      moreover from Inr q Some have "leaf_Finished P p1" by (auto dest: leaf_Scan_Finished)
      then have "arr_ok P (a\<lparr>pa_out := pa_out a @ [leaf_value P p1], pa_had_comma := False\<rparr>, p1)"
        by (simp add: arr_ok_def)
      ultimately show ?thesis by (rule ParseArray_loop_inv)
    qed
  qed
next
  case True
  show ?thesis
  proof (cases "pa_began a")
    case False
    with assms True
    have "ParseArray_loop P xs 1 (a\<lparr>pa_began := True, pa_had_comma := False\<rparr>) pool = Inr (r, a', pool')"
      by (auto simp: ParseArray_Scan_def split: if_splits)
    moreover from True have "arr_ok P (a\<lparr>pa_began := True, pa_had_comma := False\<rparr>, pool)"
      by (simp add: arr_ok_def)
    ultimately show ?thesis by (rule ParseArray_loop_inv)
  next
    case began: True
    with assms True have "ParseArray_loop P xs 0 a pool = Inr (r, a', pool')"
      by (simp add: ParseArray_Scan_def)
    moreover from assms(2) True have "arr_ok P (a, pool)" by (simp add: arr_inv_def arr_ok_def)
    ultimately show ?thesis by (rule ParseArray_loop_inv)
  qed
qed

lemma arr_result_inv: "arr_result P r a pool \<Longrightarrow> arr_inv a"
  by (cases r) (auto simp: arr_result_def arr_inv_def arr_done_def)

lemma arr_done_Swap:
  "arr_done P a pool \<Longrightarrow> ParseArray_Swap a = Inr (pa_out a, ParseArray_init)"
  by (simp add: arr_done_def ParseArray_Swap_def ParseArray_init_def)

lemma arr_inv_init: "arr_inv ParseArray_init"
  by (simp add: arr_inv_def ParseArray_init_def)

lemma arr_inv_Swap: "arr_inv a \<Longrightarrow> ParseArray_Swap a = Inr (v, a') \<Longrightarrow> arr_inv a'"
  by (auto simp: arr_inv_def ParseArray_Swap_def split: if_splits)

text \<open>Suspension without any invariant: a scan that returns the sentinel leaves finished unset.\<close>

lemma ParseArray_body_suspend:
  "ParseArray_body P xs b a pool = Return None s \<Longrightarrow> \<not> pa_finished (fst s)"
  unfolding ParseArray_body_def ParseArray_separator_def ParseArray_item_def thenDo_def
  by (auto split: if_splits prod.splits option.splits sum.splits flow.splits)

lemma ParseArray_loop_suspend:
  "ParseArray_loop P xs b a pool = Inr (None, a', pool') \<Longrightarrow> \<not> pa_finished a'"
proof (induction P xs b a pool rule: ParseArray_loop.induct)
  case (1 P xs b a pool)
  note run0 = "1.prems"[unfolded ParseArray_loop.simps[of P xs b a pool]]
  show ?case
  proof (cases "b < length xs")
    case False
    with run0 show ?thesis by auto
  next
    case lt: True
    show ?thesis
    proof (cases "ParseArray_body P xs b a pool")
      case (Throw e)
      with run0 lt show ?thesis by simp
    next
      case (Return r0 s')
      with run0 lt have "r0 = None" "s' = (a', pool')" by auto
      with Return ParseArray_body_suspend[of P xs b a pool s'] show ?thesis by simp
    next
      case (Continue b' s')
      with run0 lt have run: "ParseArray_loop P xs b' (fst s') (snd s') = Inr (None, a', pool')"
        by auto
      from "1.IH"[OF lt Continue run] show ?thesis .
    qed
  qed
qed

lemma ParseArray_Scan_suspend:
  "ParseArray_Scan P xs a pool = Inr (None, a', pool') \<Longrightarrow> ParseArray_Swap a' = Inl NotFinished"
  unfolding ParseArray_Scan_def ParseArray_Swap_def
  by (auto split: if_splits sum.splits prod.splits option.splits dest: ParseArray_loop_suspend)

text \<open>The same for \<open>ParseContainerArray\<close>, whose element parser is a \<open>ParseArray\<close> of its own.\<close>

definition cont_inv :: "ParseContainerArray \<Rightarrow> bool" where
  "cont_inv c =
     (((pc_out c = [] \<or> pc_finished c) \<longrightarrow> \<not> pc_had_comma c)
      \<and> arr_inv (pc_p c) \<and> (pa_finished (pc_p c) \<longrightarrow> pc_p c = ParseArray_init))"

definition cont_ok :: "ParseContainerArray \<times> ParserPool \<Rightarrow> bool" where
  "cont_ok s = ((pc_out (fst s) = [] \<longrightarrow> \<not> pc_had_comma (fst s)) \<and> pc_p (fst s) = ParseArray_init)"

definition cont_done :: "ParseContainerArray \<Rightarrow> bool" where
  "cont_done c = (pc_finished c \<and> \<not> pc_began c \<and> \<not> pc_had_comma c \<and> pc_p c = ParseArray_init)"

definition cont_result :: "nat option \<Rightarrow> ParseContainerArray \<Rightarrow> bool" where
  "cont_result r c =
     ((r = None \<longrightarrow> \<not> pc_finished c \<and> cont_inv c) \<and> (r \<noteq> None \<longrightarrow> cont_done c))"

definition cont_post :: "(ParseContainerArray \<times> ParserPool) flow \<Rightarrow> bool" where
  "cont_post r =
     (case r of
        Throw e \<Rightarrow> True
      | Return q s \<Rightarrow> cont_result q (fst s)
      | Continue b' s \<Rightarrow> cont_ok s)"

lemma ParseContainerArray_separator_post:
  "cont_ok (c, pool) \<Longrightarrow> cont_post (ParseContainerArray_separator xs b c pool)"
  unfolding ParseContainerArray_separator_def cont_post_def cont_ok_def cont_done_def
    cont_result_def cont_inv_def
  by (auto split: prod.splits option.splits simp: arr_inv_init)

lemma ParseContainerArray_element_suspend:
  assumes "ParseArray_Scan P xs p pool = Inr (None, p1, pool1)" and "arr_inv p"
    and "pc_out c = [] \<longrightarrow> \<not> pc_had_comma c"
  shows "cont_result None (c\<lparr>pc_p := p1, pc_finished := False\<rparr>)"
proof -
  note res = ParseArray_Scan_inv[OF assms(1,2)]
  show ?thesis
    using res arr_result_inv[OF res] assms(3)
    by (auto simp: cont_result_def cont_inv_def arr_result_def)
qed

lemma ParseContainerArray_element_push:
  assumes "ParseArray_Scan P xs p pool = Inr (Some n, p1, pool1)" and "arr_inv p"
  shows "\<exists>v. ParseContainerArray_push b c p1 pool1 =
           Continue b (c\<lparr>pc_p := ParseArray_init, pc_out := pc_out c @ [JArray v], pc_had_comma := False\<rparr>, pool1)"
  using ParseArray_Scan_inv[OF assms(1,2)]
  by (auto simp: arr_result_def ParseContainerArray_push_def dest!: arr_done_Swap)

lemma ParseContainerArray_item_post:
  assumes "cont_ok s"
  shows "cont_post (ParseContainerArray_item P xs b s)"
proof -
  obtain c pool where s: "s = (c, pool)" by (cases s)
  from assms s have ok: "pc_out c = [] \<longrightarrow> \<not> pc_had_comma c" and p: "pc_p c = ParseArray_init"
    by (simp_all add: cont_ok_def)
  obtain w pool1 where ws: "SkipWhitespace_Scan (drop b xs) pool = (w, pool1)"
    by (cases "SkipWhitespace_Scan (drop b xs) pool")
  show ?thesis
  proof (cases w)
    case None
    with s ws ok p show ?thesis
      by (simp add: ParseContainerArray_item_def cont_post_def cont_result_def cont_inv_def arr_inv_init)
  next
    case (Some k)
    show ?thesis
    proof (cases "ParseArray_Scan P (drop (b + k) xs) ParseArray_init pool1")
      case (Inl e)
      with s ws Some p show ?thesis by (simp add: ParseContainerArray_item_def cont_post_def)
    next
      case (Inr q)
      obtain r p1 pool2 where q: "q = (r, p1, pool2)" by (cases q)
      show ?thesis
      proof (cases r)
        case None
        with s ws Some p Inr q
          ParseContainerArray_element_suspend[OF Inr[unfolded q None] arr_inv_init ok]
        show ?thesis
          by (simp add: ParseContainerArray_item_def cont_post_def)
      next
        case (Some n)
        with ParseContainerArray_element_push[OF Inr[unfolded q Some] arr_inv_init, of "b + k + n" c]
        obtain v where "ParseContainerArray_push (b + k + n) c p1 pool2 =
           Continue (b + k + n) (c\<lparr>pc_p := ParseArray_init, pc_out := pc_out c @ [JArray v], pc_had_comma := False\<rparr>, pool2)"
          by auto
        with s ws \<open>w = Some k\<close> p Inr q Some show ?thesis
          by (simp add: ParseContainerArray_item_def cont_post_def cont_ok_def)
      qed
    qed
  qed
qed

lemma cont_post_thenDo:
  "cont_post r \<Longrightarrow> (\<And>b s. cont_ok s \<Longrightarrow> cont_post (f b s)) \<Longrightarrow> cont_post (thenDo r f)"
  by (cases r) (auto simp: thenDo_def cont_post_def)

lemma ParseContainerArray_body_post:
  "cont_ok (c, pool) \<Longrightarrow> cont_post (ParseContainerArray_body P xs b c pool)"
  unfolding ParseContainerArray_body_def
  by (intro cont_post_thenDo ParseContainerArray_separator_post ParseContainerArray_item_post)

lemma ParseContainerArray_loop_inv:
  assumes "ParseContainerArray_loop P xs b c pool = Inr (r, c', pool')" and "cont_ok (c, pool)"
  shows "cont_result r c'"
  using assms
proof (induction P xs b c pool rule: ParseContainerArray_loop.induct)
  case (1 P xs b c pool)
  note run0 = "1.prems"(1)[unfolded ParseContainerArray_loop.simps[of P xs b c pool]]
  note post = ParseContainerArray_body_post[OF "1.prems"(2), of P xs b]
  show ?case
  proof (cases "b < length xs")
    case False
    with run0 "1.prems"(2) show ?thesis
      by (auto simp: cont_result_def cont_ok_def cont_inv_def arr_inv_init)
  next
    case lt: True
    show ?thesis
    proof (cases "ParseContainerArray_body P xs b c pool")
      case (Throw e)
      with run0 lt show ?thesis by simp
    next
      case (Return r0 s')
      with run0 lt have "r0 = r" "s' = (c', pool')" by auto
      with post Return show ?thesis by (simp add: cont_post_def)
    next
      case (Continue b' s')
      with run0 lt have run: "ParseContainerArray_loop P xs b' (fst s') (snd s') = Inr (r, c', pool')"
        by auto
      from post Continue have "cont_ok (fst s', snd s')" by (simp add: cont_post_def)
      from "1.IH"[OF lt Continue run this] show ?thesis .
    qed
  qed
qed

lemma ParseContainerArray_Scan_inv:
  assumes "ParseContainerArray_Scan P xs c pool = Inr (r, c', pool')" and "cont_inv c"
  shows "cont_result r c'"
proof (cases "pa_finished (pc_p c)")
  case False
  from assms(2) have ai: "arr_inv (pc_p c)" and ok: "pc_out c = [] \<longrightarrow> \<not> pc_had_comma c"
    by (simp_all add: cont_inv_def)
  show ?thesis
  proof (cases "ParseArray_Scan P xs (pc_p c) pool")
    case (Inl e)
    with assms False show ?thesis by (simp add: ParseContainerArray_Scan_def)
  next
    case (Inr q)
    obtain r1 p1 pool1 where q: "q = (r1, p1, pool1)" by (cases q)
    show ?thesis
    proof (cases r1)
      case None
      with assms False Inr q ParseContainerArray_element_suspend[OF Inr[unfolded q None] ai ok]
      show ?thesis
        by (auto simp: ParseContainerArray_Scan_def)
    next
      case (Some n)
      with ParseContainerArray_element_push[OF Inr[unfolded q Some] ai, of n c]
      obtain v where push: "ParseContainerArray_push n c p1 pool1 =
           Continue n (c\<lparr>pc_p := ParseArray_init, pc_out := pc_out c @ [JArray v], pc_had_comma := False\<rparr>, pool1)"
        by auto
      with assms False Inr q Some
      have "ParseContainerArray_loop P xs n
              (c\<lparr>pc_p := ParseArray_init, pc_out := pc_out c @ [JArray v], pc_had_comma := False\<rparr>) pool1
            = Inr (r, c', pool')" by (simp add: ParseContainerArray_Scan_def)
      moreover have "cont_ok (c\<lparr>pc_p := ParseArray_init, pc_out := pc_out c @ [JArray v], pc_had_comma := False\<rparr>, pool1)"
        by (simp add: cont_ok_def)
      ultimately show ?thesis by (rule ParseContainerArray_loop_inv)
    qed
  qed
next
  case True
  with assms(2) have p: "pc_p c = ParseArray_init" by (simp add: cont_inv_def)
  show ?thesis
  proof (cases "pc_began c")
    case False
    with assms True
    have "ParseContainerArray_loop P xs 1 (c\<lparr>pc_began := True, pc_had_comma := False\<rparr>) pool = Inr (r, c', pool')"
      by (auto simp: ParseContainerArray_Scan_def split: if_splits)
    moreover from p have "cont_ok (c\<lparr>pc_began := True, pc_had_comma := False\<rparr>, pool)"
      by (simp add: cont_ok_def)
    ultimately show ?thesis by (rule ParseContainerArray_loop_inv)
  next
    case began: True
    with assms True have "ParseContainerArray_loop P xs 0 c pool = Inr (r, c', pool')"
      by (simp add: ParseContainerArray_Scan_def)
    moreover from assms(2) p have "cont_ok (c, pool)" by (simp add: cont_inv_def cont_ok_def)
    ultimately show ?thesis by (rule ParseContainerArray_loop_inv)
  qed
qed

lemma cont_result_inv: "cont_result r c \<Longrightarrow> cont_inv c"
  by (cases r) (auto simp: cont_result_def cont_inv_def cont_done_def arr_inv_init)

lemma cont_done_Swap:
  "cont_done c \<Longrightarrow> ParseContainerArray_Swap c = Inr (pc_out c, ParseContainerArray_init)"
  by (simp add: cont_done_def ParseContainerArray_Swap_def ParseContainerArray_init_def)

lemma cont_inv_init: "cont_inv ParseContainerArray_init"
  by (simp add: cont_inv_def ParseContainerArray_init_def arr_inv_init)

lemma cont_inv_Swap: "cont_inv c \<Longrightarrow> ParseContainerArray_Swap c = Inr (v, c') \<Longrightarrow> cont_inv c'"
  by (auto simp: cont_inv_def ParseContainerArray_Swap_def split: if_splits)

lemma ParseContainerArray_body_suspend:
  "ParseContainerArray_body P xs b a pool = Return None s \<Longrightarrow> \<not> pc_finished (fst s)"
  unfolding ParseContainerArray_body_def ParseContainerArray_separator_def
    ParseContainerArray_item_def ParseContainerArray_push_def thenDo_def
  by (auto split: if_splits prod.splits option.splits sum.splits flow.splits)

lemma ParseContainerArray_loop_suspend:
  "ParseContainerArray_loop P xs b a pool = Inr (None, a', pool') \<Longrightarrow> \<not> pc_finished a'"
proof (induction P xs b a pool rule: ParseContainerArray_loop.induct)
  case (1 P xs b a pool)
  note run0 = "1.prems"[unfolded ParseContainerArray_loop.simps[of P xs b a pool]]
  show ?case
  proof (cases "b < length xs")
    case False
    with run0 show ?thesis by auto
  next
    case lt: True
    show ?thesis
    proof (cases "ParseContainerArray_body P xs b a pool")
      case (Throw e)
      with run0 lt show ?thesis by simp
    next
      case (Return r0 s')
      with run0 lt have "r0 = None" "s' = (a', pool')" by auto
      with Return ParseContainerArray_body_suspend[of P xs b a pool s'] show ?thesis by simp
    next
      case (Continue b' s')
      with run0 lt have run: "ParseContainerArray_loop P xs b' (fst s') (snd s') = Inr (None, a', pool')"
        by auto
      from "1.IH"[OF lt Continue run] show ?thesis .
    qed
  qed
qed

lemma ParseContainerArray_Scan_suspend:
  "ParseContainerArray_Scan P xs a pool = Inr (None, a', pool')
   \<Longrightarrow> ParseContainerArray_Swap a' = Inl NotFinished"
  unfolding ParseContainerArray_Scan_def ParseContainerArray_Swap_def ParseContainerArray_push_def
  by (auto split: if_splits sum.splits prod.splits option.splits flow.splits
        dest: ParseContainerArray_loop_suspend)

text \<open>
  For \<open>ParseObject\<close>: outside a value scan every field's parser is as constructed and its
  \<open>given\<close> flag is unset; the record has one slot for each field; \<open>finished\<close> is set exactly in
  state \<open>NotStarted\<close>, where \<open>activating\<close> and \<open>active\<close> are -1.
\<close>

definition reset_field :: "ScanningKeyValue \<Rightarrow> ScanningKeyValue" where
  "reset_field g =
     g\<lparr>kv_given := False,
       kv_p := (case kv_p g of
                  PoolParser P \<Rightarrow> PoolParser P
                | ArrayParser P a \<Rightarrow> ArrayParser P ParseArray_init
                | ContainerArrayParser P c \<Rightarrow> ContainerArrayParser P ParseContainerArray_init)\<rparr>"

definition field_inv :: "ScanningKeyValue \<Rightarrow> bool" where
  "field_inv g =
     (case kv_p g of
        PoolParser P \<Rightarrow> True
      | ArrayParser P a \<Rightarrow> arr_inv a
      | ContainerArrayParser P c \<Rightarrow> cont_inv c)"

lemma fresh_field_inv: "reset_field f = f \<Longrightarrow> field_inv f"
proof -
  assume "reset_field f = f"
  then have "kv_p (reset_field f) = kv_p f" by simp
  then show ?thesis
    by (cases "kv_p f") (auto simp: reset_field_def field_inv_def arr_inv_init cont_inv_init)
qed

lemma Scanner_Scan_inv:
  assumes "Scanner_Scan g xs pool = Inr (r, g1, pool1)" and "field_inv g"
  shows "reset_field g1 = reset_field g \<and> field_inv g1
       \<and> (r \<noteq> None \<longrightarrow> (\<exists>vs' pool2. KeyValue_Swap g1 vs pool1 = Inr (reset_field g, vs', pool2)))"
proof (cases "kv_p g")
  case (PoolParser P)
  with assms show ?thesis
    by (cases g) (auto simp: Scanner_Scan_def Let_def reset_field_def field_inv_def KeyValue_Swap_def
        split: sum.splits prod.splits)
next
  case (ArrayParser P a)
  with assms(2) have ai: "arr_inv a" by (simp add: field_inv_def)
  from assms(1) ArrayParser obtain a1 where sc: "ParseArray_Scan P xs a pool = Inr (r, a1, pool1)"
    and g1: "g1 = g\<lparr>kv_given := True, kv_p := ArrayParser P a1\<rparr>"
    by (auto simp: Scanner_Scan_def Let_def split: sum.splits prod.splits)
  note res = ParseArray_Scan_inv[OF sc ai]
  from arr_result_inv[OF res] g1 ArrayParser have a: "reset_field g1 = reset_field g \<and> field_inv g1"
    by (cases g) (simp add: reset_field_def field_inv_def)
  have "r \<noteq> None \<longrightarrow> (\<exists>vs' pool2. KeyValue_Swap g1 vs pool1 = Inr (reset_field g, vs', pool2))"
  proof
    assume "r \<noteq> None"
    with res have "arr_done P a1 pool1" by (simp add: arr_result_def)
    from arr_done_Swap[OF this] g1 ArrayParser show
      "\<exists>vs' pool2. KeyValue_Swap g1 vs pool1 = Inr (reset_field g, vs', pool2)"
      by (cases g) (simp add: KeyValue_Swap_def reset_field_def)
  qed
  with a show ?thesis by blast
next
  case (ContainerArrayParser P c)
  with assms(2) have ci: "cont_inv c" by (simp add: field_inv_def)
  from assms(1) ContainerArrayParser obtain c1
    where sc: "ParseContainerArray_Scan P xs c pool = Inr (r, c1, pool1)"
    and g1: "g1 = g\<lparr>kv_given := True, kv_p := ContainerArrayParser P c1\<rparr>"
    by (auto simp: Scanner_Scan_def Let_def split: sum.splits prod.splits)
  note res = ParseContainerArray_Scan_inv[OF sc ci]
  from cont_result_inv[OF res] g1 ContainerArrayParser
  have a: "reset_field g1 = reset_field g \<and> field_inv g1"
    by (cases g) (simp add: reset_field_def field_inv_def)
  have "r \<noteq> None \<longrightarrow> (\<exists>vs' pool2. KeyValue_Swap g1 vs pool1 = Inr (reset_field g, vs', pool2))"
  proof
    assume "r \<noteq> None"
    with res have "cont_done c1" by (simp add: cont_result_def)
    from cont_done_Swap[OF this] g1 ContainerArrayParser show
      "\<exists>vs' pool2. KeyValue_Swap g1 vs pool1 = Inr (reset_field g, vs', pool2)"
      by (cases g) (simp add: KeyValue_Swap_def reset_field_def)
  qed
  with a show ?thesis by blast
qed

definition obj_inv :: "ScanningKeyValue list \<Rightarrow> ParseObject \<Rightarrow> bool" where
  "obj_inv kvs ob =
     (length (po_parsers ob) = length kvs
      \<and> (\<forall>j < length kvs.
            if po_state ob = ExpectValue \<and> po_active ob = int j
            then reset_field (po_parsers ob ! j) = kvs ! j \<and> field_inv (po_parsers ob ! j)
            else po_parsers ob ! j = kvs ! j))"

definition obj_done :: "ScanningKeyValue list \<Rightarrow> ParseObject \<Rightarrow> bool" where
  "obj_done kvs ob =
     (po_parsers ob = kvs \<and> po_state ob = NotStarted \<and> po_activating ob = - 1
      \<and> po_active ob = - 1 \<and> po_finished ob)"

definition obj_post :: "ScanningKeyValue list \<Rightarrow> (ParseObject \<times> ParserPool) flow \<Rightarrow> bool" where
  "obj_post kvs r =
     (case r of
        Throw e \<Rightarrow> True
      | Return None s \<Rightarrow> obj_inv kvs (fst s) \<and> \<not> po_finished (fst s)
      | Return (Some n) s \<Rightarrow> obj_done kvs (fst s)
      | Continue b s \<Rightarrow> obj_inv kvs (fst s))"

lemma obj_inv_parsers:
  "obj_inv kvs ob \<Longrightarrow> po_state ob \<noteq> ExpectValue \<Longrightarrow> po_parsers ob = kvs"
  by (auto simp: obj_inv_def intro: nth_equalityI)

lemma checkPassed_post:
  "obj_inv kvs ob \<Longrightarrow> po_state ob \<noteq> ExpectValue \<Longrightarrow> obj_post kvs (checkPassed ptr ob pool)"
  by (auto simp: checkPassed_def obj_post_def obj_done_def dest: obj_inv_parsers)

lemma suspend_post:
  "obj_inv kvs ob \<Longrightarrow> obj_post kvs (suspend ob pool)"
  by (simp add: suspend_def obj_post_def obj_inv_def)

lemma obj_inv_state:
  "obj_inv kvs ob \<Longrightarrow> po_state ob \<noteq> ExpectValue \<Longrightarrow> st \<noteq> ExpectValue
   \<Longrightarrow> obj_inv kvs (ob\<lparr>po_state := st\<rparr>)"
  by (simp add: obj_inv_def)

lemma obj_post_Continue: "obj_inv kvs (fst s) \<Longrightarrow> obj_post kvs (Continue b s)"
  by (simp add: obj_post_def)

lemma obj_post_Throw: "obj_post kvs (Throw e)"
  by (simp add: obj_post_def)

lemma ParseObject_PreKey_post:
  "obj_inv kvs (fst s) \<Longrightarrow> obj_post kvs (ParseObject_PreKey xs b s)"
  by (cases s)
     (auto simp: ParseObject_PreKey_def split: prod.splits option.splits
        intro!: checkPassed_post suspend_post obj_post_Continue obj_inv_state)

lemma ParseObject_ExpectKey_post:
  "obj_inv kvs (fst s) \<Longrightarrow> obj_post kvs (ParseObject_ExpectKey xs b s)"
  by (cases s)
     (auto simp: ParseObject_ExpectKey_def obj_inv_def split: prod.splits option.splits sum.splits
        intro!: suspend_post obj_post_Continue obj_post_Throw)

lemma ParseObject_PreColon_post:
  "obj_inv kvs (fst s) \<Longrightarrow> obj_post kvs (ParseObject_PreColon xs b s)"
  by (cases s)
     (auto simp: ParseObject_PreColon_def split: prod.splits option.splits
        intro!: suspend_post obj_post_Continue obj_inv_state)

lemma ParseObject_ExpectColon_post:
  "obj_inv kvs (fst s) \<Longrightarrow> obj_post kvs (ParseObject_ExpectColon xs b s)"
  by (cases s)
     (auto simp: ParseObject_ExpectColon_def split: prod.splits option.splits
        intro!: suspend_post obj_post_Continue obj_post_Throw obj_inv_state)

lemma ParseObject_PreComma_post:
  "obj_inv kvs (fst s) \<Longrightarrow> obj_post kvs (ParseObject_PreComma xs b s)"
  by (cases s)
     (auto simp: ParseObject_PreComma_def split: prod.splits option.splits
        intro!: suspend_post obj_post_Continue obj_inv_state)

lemma ParseObject_ExpectComma_post:
  "obj_inv kvs (fst s) \<Longrightarrow> obj_post kvs (ParseObject_ExpectComma xs b s)"
  by (cases s)
     (auto simp: ParseObject_ExpectComma_def split: prod.splits option.splits
        intro!: checkPassed_post obj_post_Continue obj_post_Throw obj_inv_state)

lemma ParseObject_PreValue_post:
  assumes "obj_inv kvs (fst s)" and "\<forall>f \<in> set kvs. reset_field f = f"
  shows "obj_post kvs (ParseObject_PreValue xs b s)"
proof -
  obtain ob pool where s: "s = (ob, pool)" by (cases s)
  show ?thesis
  proof (cases "po_state ob = PreValue")
    case False
    with s assms(1) show ?thesis by (simp add: ParseObject_PreValue_def obj_post_Continue)
  next
    case True
    obtain w pool1 where ws: "SkipWhitespace_Scan (drop b xs) pool = (w, pool1)"
      by (cases "SkipWhitespace_Scan (drop b xs) pool")
    show ?thesis
    proof (cases w)
      case None
      with s True ws assms(1) show ?thesis
        by (simp add: ParseObject_PreValue_def suspend_post)
    next
      case (Some k)
      from assms(1) s True have eq: "\<And>j. j < length kvs \<Longrightarrow> po_parsers ob ! j = kvs ! j"
        and len: "length (po_parsers ob) = length kvs"
        by (simp_all add: obj_inv_def)
      have "obj_inv kvs (ob\<lparr>po_active := po_activating ob, po_activating := - 1,
                     po_state := ExpectValue\<rparr>)"
        using eq len assms(2) fresh_field_inv
        by (auto simp: obj_inv_def)
      with s True ws Some show ?thesis
        by (simp add: ParseObject_PreValue_def obj_post_Continue)
    qed
  qed
qed

lemma ParseObject_ExpectValue_post:
  assumes "obj_inv kvs (fst s)"
  shows "obj_post kvs (ParseObject_ExpectValue xs b s)"
proof -
  obtain ob pool where s: "s = (ob, pool)" by (cases s)
  show ?thesis
  proof (cases "po_state ob = ExpectValue")
    case False
    with s assms(1) show ?thesis by (simp add: ParseObject_ExpectValue_def obj_post_Continue)
  next
    case True
    show ?thesis
    proof (cases "0 \<le> po_active ob \<and> nat (po_active ob) < length (po_parsers ob)
              \<and> nat (po_active ob) < length (po_out ob)")
      case False
      with s True show ?thesis by (auto simp: ParseObject_ExpectValue_def obj_post_Throw)
    next
      case valid: True
      define k where "k = nat (po_active ob)"
      from valid have act: "po_active ob = int k" by (simp add: k_def)
      from assms s have len: "length (po_parsers ob) = length kvs" by (simp add: obj_inv_def)
      with valid have kl: "k < length kvs" by (simp add: k_def)
      from assms s True act kl have mid: "reset_field (po_parsers ob ! k) = kvs ! k"
        and fi: "field_inv (po_parsers ob ! k)"
        by (auto simp: obj_inv_def)
      from assms s True act have others: "\<And>j. j < length kvs \<Longrightarrow> j \<noteq> k \<Longrightarrow> po_parsers ob ! j = kvs ! j"
        by (auto simp: obj_inv_def)
      show ?thesis
      proof (cases "Scanner_Scan (po_parsers ob ! k) (drop b xs) pool")
        case (Inl e)
        with s True valid show ?thesis
          by (simp add: ParseObject_ExpectValue_def Let_def k_def obj_post_Throw)
      next
        case (Inr q)
        obtain r g1 pool1 where q: "q = (r, g1, pool1)" by (cases q)
        note sc = Scanner_Scan_inv[OF Inr[unfolded q] fi, of "po_out ob ! k"]
        show ?thesis
        proof (cases r)
          case None
          have "obj_inv kvs (ob\<lparr>po_parsers := (po_parsers ob)[k := g1]\<rparr>)"
            using sc mid others len kl True act
            by (auto simp: obj_inv_def nth_list_update)
          with s True valid Inr q None show ?thesis
            by (simp add: ParseObject_ExpectValue_def Let_def k_def[symmetric] suspend_post)
        next
          case (Some n)
          with sc mid obtain vs' pool2
            where sw: "KeyValue_Swap g1 (po_out ob ! k) pool1 = Inr (kvs ! k, vs', pool2)"
            by auto
          have "obj_inv kvs (ob\<lparr>po_parsers := (po_parsers ob)[k := kvs ! k],
                             po_out := (po_out ob)[k := vs'],
                             po_active := - 1, po_state := PreComma\<rparr>)"
            using others len kl by (auto simp: obj_inv_def nth_list_update)
          with s True valid Inr q Some sw show ?thesis
            by (simp add: ParseObject_ExpectValue_def Let_def k_def[symmetric] obj_post_Continue)
        qed
      qed
    qed
  qed
qed

lemma obj_post_thenDo:
  "obj_post kvs r \<Longrightarrow> (\<And>b s. obj_inv kvs (fst s) \<Longrightarrow> obj_post kvs (f b s))
   \<Longrightarrow> obj_post kvs (thenDo r f)"
  by (cases r) (auto simp: thenDo_def obj_post_def)

lemma ParseObject_body_post:
  assumes "obj_inv kvs (fst s)" and "\<forall>f \<in> set kvs. reset_field f = f"
  shows "obj_post kvs (ParseObject_body xs b s)"
  unfolding ParseObject_body_def
  by (intro obj_post_thenDo ParseObject_PreKey_post ParseObject_ExpectKey_post
        ParseObject_PreColon_post ParseObject_ExpectColon_post ParseObject_PreValue_post
        ParseObject_ExpectValue_post ParseObject_PreComma_post ParseObject_ExpectComma_post
        assms)

definition obj_result :: "ScanningKeyValue list \<Rightarrow> nat option \<Rightarrow> ParseObject \<Rightarrow> bool" where
  "obj_result kvs r ob =
     ((r = None \<longrightarrow> obj_inv kvs ob \<and> \<not> po_finished ob) \<and> (r \<noteq> None \<longrightarrow> obj_done kvs ob))"

lemma ParseObject_loop_inv:
  assumes "ParseObject_loop xs b ob pool = Inr (r, ob', pool')" and "obj_inv kvs ob"
    and "\<forall>f \<in> set kvs. reset_field f = f"
  shows "obj_result kvs r ob'"
  using assms(1,2)
proof (induction xs b ob pool rule: ParseObject_loop.induct)
  case (1 xs b ob pool)
  note run0 = "1.prems"(1)[unfolded ParseObject_loop.simps[of xs b ob pool]]
  have oi: "obj_inv kvs (fst (ob, pool))" using "1.prems"(2) by simp
  note post = ParseObject_body_post[OF oi assms(3), of xs b]
  show ?case
  proof (cases "b < length xs")
    case False
    with run0 "1.prems"(2) show ?thesis by (auto simp: obj_result_def obj_inv_def)
  next
    case lt: True
    with run0 have ns: "po_state ob \<noteq> NotStarted" by (auto split: if_splits)
    show ?thesis
    proof (cases "ParseObject_body xs b (ob, pool)")
      case (Throw e)
      with run0 lt ns show ?thesis by simp
    next
      case (Return r0 s')
      with run0 lt ns have "r0 = r" "s' = (ob', pool')" by auto
      with post Return show ?thesis by (cases r) (auto simp: obj_post_def obj_result_def)
    next
      case (Continue b' s')
      with run0 lt ns have run: "ParseObject_loop xs b' (fst s') (snd s') = Inr (r, ob', pool')"
        by auto
      from post Continue have "obj_inv kvs (fst s')" by (simp add: obj_post_def)
      from "1.IH"[OF lt ns Continue run this] show ?thesis .
    qed
  qed
qed

lemma ParseObject_Scan_inv:
  assumes "ParseObject_Scan xs ob pool = Inr (r, ob', pool')" and "obj_inv kvs ob"
    and "\<forall>f \<in> set kvs. reset_field f = f"
  shows "obj_result kvs r ob'"
proof (cases "po_state ob = NotStarted")
  case True
  with assms(1) have "ParseObject_loop xs 1 (ob\<lparr>po_state := PreKey\<rparr>) pool = Inr (r, ob', pool')"
    by (auto simp: ParseObject_Scan_def split: if_splits)
  moreover from assms(2) True have "obj_inv kvs (ob\<lparr>po_state := PreKey\<rparr>)"
    by (simp add: obj_inv_def)
  ultimately show ?thesis using assms(3) by (rule ParseObject_loop_inv)
next
  case False
  with assms(1) have "ParseObject_loop xs 0 ob pool = Inr (r, ob', pool')"
    by (simp add: ParseObject_Scan_def)
  then show ?thesis using assms(2,3) by (rule ParseObject_loop_inv)
qed

lemma obj_done_Swap:
  "obj_done kvs ob \<Longrightarrow> ParseObject_Swap ob = (po_out ob, ParseObject_init kvs)"
  by (simp add: obj_done_def ParseObject_Swap_def ParseObject_init_def)

lemma obj_inv_init: "obj_inv kvs (ParseObject_init kvs)"
  by (simp add: obj_inv_def ParseObject_init_def)

lemma obj_result_inv:
  "obj_result kvs r ob \<Longrightarrow> obj_inv kvs ob"
  by (cases r) (auto simp: obj_result_def obj_done_def obj_inv_def)

lemma obj_inv_Swap: "obj_inv kvs ob \<Longrightarrow> obj_inv kvs (snd (ParseObject_Swap ob))"
  by (simp add: obj_inv_def ParseObject_Swap_def)

text \<open>
  The states an instance can be in: a new instance, and what any scan that returns (with a position
  or with the sentinel) and any \<open>Swap\<close> that returns make of such a state.
\<close>

inductive array_reachable :: "leaf \<Rightarrow> ParseArray \<Rightarrow> bool" for P :: leaf where
  array_new: "array_reachable P ParseArray_init"
| array_scan: "array_reachable P a \<Longrightarrow> ParseArray_Scan P xs a pool = Inr (r, a', pool')
               \<Longrightarrow> array_reachable P a'"
| array_swap: "array_reachable P a \<Longrightarrow> ParseArray_Swap a = Inr (v, a') \<Longrightarrow> array_reachable P a'"

inductive container_reachable :: "leaf \<Rightarrow> ParseContainerArray \<Rightarrow> bool" for P :: leaf where
  container_new: "container_reachable P ParseContainerArray_init"
| container_scan: "container_reachable P c \<Longrightarrow> ParseContainerArray_Scan P xs c pool = Inr (r, c', pool')
               \<Longrightarrow> container_reachable P c'"
| container_swap: "container_reachable P c \<Longrightarrow> ParseContainerArray_Swap c = Inr (v, c')
               \<Longrightarrow> container_reachable P c'"

definition new_fields :: "ScanningKeyValue list \<Rightarrow> bool" where
  "new_fields kvs = list_all (\<lambda>f. reset_field f = f) kvs"

inductive object_reachable :: "ScanningKeyValue list \<Rightarrow> ParseObject \<Rightarrow> bool"
  for kvs :: "ScanningKeyValue list" where
  object_new: "object_reachable kvs (ParseObject_init kvs)"
| object_scan: "object_reachable kvs ob \<Longrightarrow> ParseObject_Scan xs ob pool = Inr (r, ob', pool')
               \<Longrightarrow> object_reachable kvs ob'"
| object_swap: "object_reachable kvs ob \<Longrightarrow> ParseObject_Swap ob = (v, ob')
               \<Longrightarrow> object_reachable kvs ob'"

lemma array_reachable_inv: "array_reachable P a \<Longrightarrow> arr_inv a"
proof (induction rule: array_reachable.induct)
  case array_new
  show ?case by (rule arr_inv_init)
next
  case (array_scan a xs pool r a' pool')
  from ParseArray_Scan_inv[OF array_scan(2) array_scan.IH] show ?case by (rule arr_result_inv)
next
  case (array_swap a v a')
  from array_swap.IH array_swap(2) show ?case by (rule arr_inv_Swap)
qed

lemma container_reachable_inv: "container_reachable P c \<Longrightarrow> cont_inv c"
proof (induction rule: container_reachable.induct)
  case container_new
  show ?case by (rule cont_inv_init)
next
  case (container_scan c xs pool r c' pool')
  from ParseContainerArray_Scan_inv[OF container_scan(2) container_scan.IH] show ?case
    by (rule cont_result_inv)
next
  case (container_swap c v c')
  from container_swap.IH container_swap(2) show ?case by (rule cont_inv_Swap)
qed

lemma object_reachable_inv:
  assumes "new_fields kvs"
  shows "object_reachable kvs ob \<Longrightarrow> obj_inv kvs ob"
proof (induction rule: object_reachable.induct)
  case object_new
  show ?case by (rule obj_inv_init)
next
  case (object_scan ob xs pool r ob' pool')
  from assms have "\<forall>f \<in> set kvs. reset_field f = f" by (simp add: new_fields_def list_all_iff)
  from ParseObject_Scan_inv[OF object_scan(2) object_scan.IH this] show ?case
    by (rule obj_result_inv)
next
  case (object_swap ob v ob')
  from obj_inv_Swap[OF object_swap.IH] object_swap(2) show ?case by simp
qed

text \<open>
  C9, as stated, fails. When \<open>ParseArray::Scan\<close> completes on \<open>[1]\<close> the flags are back at their
  initial values but \<open>out\<close> still holds the decoded element, so the state is not the initial one.
  Scanning \<open>[2]\<close> with the same instance, with no \<open>Swap\<close> in between, throws
  \<open>InvalidArraySeparator\<close>, where a new instance decodes the array of 2.
\<close>

theorem C9_counterexample:
  "ParseArray_Scan LFloat ''[1]'' ParseArray_init ParserPool_init
     = Inr (Some 3, ParseArray_init\<lparr>pa_out := [JFloat (Finite 1)]\<rparr>,
            ParserPool_init\<lparr>float_value := Finite 1\<rparr>)
   \<and> ParseArray_Scan LFloat ''[2]'' (ParseArray_init\<lparr>pa_out := [JFloat (Finite 1)]\<rparr>)
        (ParserPool_init\<lparr>float_value := Finite 1\<rparr>)
     = Inl InvalidArraySeparator
   \<and> ParseArray_Scan LFloat ''[2]'' ParseArray_init (ParserPool_init\<lparr>float_value := Finite 1\<rparr>)
     = Inr (Some 3, ParseArray_init\<lparr>pa_out := [JFloat (Finite 2)]\<rparr>,
            ParserPool_init\<lparr>float_value := Finite 2\<rparr>)"
  by code_simp

text \<open>
  C9, amended: for every state a combinator (array, nested array, object with fields as
  constructed) reaches from a new instance by scans and swaps, a scan that reports completion
  leaves a state on which \<open>Swap\<close> succeeds, hands out the decoded value, and leaves exactly the
  initial state. So the state at completion differs from the initial one in the held value only.
\<close>

theorem C9_reset_after_completion_and_Swap:
  "(array_reachable P a \<and> ParseArray_Scan P xs a pool = Inr (Some n, a', pool')
      \<longrightarrow> ParseArray_Swap a' = Inr (pa_out a', ParseArray_init))
   \<and> (container_reachable P c \<and> ParseContainerArray_Scan P xs c pool = Inr (Some n, c', pool')
      \<longrightarrow> ParseContainerArray_Swap c' = Inr (pc_out c', ParseContainerArray_init))
   \<and> (new_fields kvs \<and> object_reachable kvs ob
        \<and> ParseObject_Scan xs ob pool = Inr (Some n, ob', pool')
      \<longrightarrow> ParseObject_Swap ob' = (po_out ob', ParseObject_init kvs))"
proof (intro conjI impI)
  assume h: "array_reachable P a \<and> ParseArray_Scan P xs a pool = Inr (Some n, a', pool')"
  then have "arr_inv a" by (blast intro: array_reachable_inv)
  from ParseArray_Scan_inv[OF conjunct2[OF h] this] have "arr_done P a' pool'"
    by (simp add: arr_result_def)
  then show "ParseArray_Swap a' = Inr (pa_out a', ParseArray_init)" by (rule arr_done_Swap)
next
  assume h: "container_reachable P c \<and> ParseContainerArray_Scan P xs c pool = Inr (Some n, c', pool')"
  then have "cont_inv c" by (blast intro: container_reachable_inv)
  from ParseContainerArray_Scan_inv[OF conjunct2[OF h] this] have "cont_done c'"
    by (simp add: cont_result_def)
  then show "ParseContainerArray_Swap c' = Inr (pc_out c', ParseContainerArray_init)"
    by (rule cont_done_Swap)
next
  assume h: "new_fields kvs \<and> object_reachable kvs ob
        \<and> ParseObject_Scan xs ob pool = Inr (Some n, ob', pool')"
  then have nf: "\<forall>f \<in> set kvs. reset_field f = f" by (simp add: new_fields_def list_all_iff)
  from h have "obj_inv kvs ob" by (blast intro: object_reachable_inv)
  from ParseObject_Scan_inv[OF conjunct2[OF conjunct2[OF h]] this nf] have "obj_done kvs ob'"
    by (simp add: obj_result_def)
  then show "ParseObject_Swap ob' = (po_out ob', ParseObject_init kvs)" by (rule obj_done_Swap)
qed

text \<open>
  C9 at concrete inputs: an array completed by a second span, a nested array and an object with
  a required field.
\<close>

theorem C9_witness:
  "array_reachable LFloat (ParseArray_init\<lparr>pa_began := True, pa_finished := False\<rparr>)
   \<and> ParseArray_Scan LFloat ''2]'' (ParseArray_init\<lparr>pa_began := True, pa_finished := False\<rparr>)
        (ParserPool_init\<lparr>buffer := ''1'', float_finished := False, float_value := Finite 1\<rparr>)
     = Inr (Some 2, ParseArray_init\<lparr>pa_out := [JFloat (Finite 12)]\<rparr>,
            ParserPool_init\<lparr>float_value := Finite 12\<rparr>)
   \<and> ParseArray_Swap (ParseArray_init\<lparr>pa_out := [JFloat (Finite 12)]\<rparr>)
     = Inr ([JFloat (Finite 12)], ParseArray_init)
   \<and> container_reachable LFloat ParseContainerArray_init
   \<and> ParseContainerArray_Scan LFloat ''[[1]]'' ParseContainerArray_init ParserPool_init
     = Inr (Some 5, ParseContainerArray_init\<lparr>pc_out := [JArray [JFloat (Finite 1)]]\<rparr>,
            ParserPool_init\<lparr>float_value := Finite 1\<rparr>)
   \<and> ParseContainerArray_Swap (ParseContainerArray_init\<lparr>pc_out := [JArray [JFloat (Finite 1)]]\<rparr>)
     = Inr ([JArray [JFloat (Finite 1)]], ParseContainerArray_init)
   \<and> new_fields [RequiredKeyValue ''name'' LFloat]
   \<and> object_reachable [RequiredKeyValue ''name'' LFloat] (ParseObject_init [RequiredKeyValue ''name'' LFloat])
   \<and> ParseObject_Scan ([CHR ''{'', CHR 0x22] @ ''name'' @ [CHR 0x22] @ '':1}'')
        (ParseObject_init [RequiredKeyValue ''name'' LFloat]) ParserPool_init
     = Inr (Some 10,
            (ParseObject_init [RequiredKeyValue ''name'' LFloat])
              \<lparr>po_out := [\<lparr>vs_given = True, vs_value = JFloat (Finite 1)\<rparr>]\<rparr>,
            ParserPool_init\<lparr>float_value := Finite 0, string_value := ''name''\<rparr>)
   \<and> ParseObject_Swap ((ParseObject_init [RequiredKeyValue ''name'' LFloat])
              \<lparr>po_out := [\<lparr>vs_given = True, vs_value = JFloat (Finite 1)\<rparr>]\<rparr>)
     = ([\<lparr>vs_given = True, vs_value = JFloat (Finite 1)\<rparr>],
        ParseObject_init [RequiredKeyValue ''name'' LFloat])"
proof -
  have s0: "ParseArray_Scan LFloat ''[1'' ParseArray_init ParserPool_init
     = Inr (None, ParseArray_init\<lparr>pa_began := True, pa_finished := False\<rparr>,
            ParserPool_init\<lparr>buffer := ''1'', float_finished := False, float_value := Finite 1\<rparr>)"
    by code_simp
  have ar: "array_reachable LFloat (ParseArray_init\<lparr>pa_began := True, pa_finished := False\<rparr>)"
    by (rule array_scan[OF array_new s0])
  have s1: "ParseArray_Scan LFloat ''2]'' (ParseArray_init\<lparr>pa_began := True, pa_finished := False\<rparr>)
        (ParserPool_init\<lparr>buffer := ''1'', float_finished := False, float_value := Finite 1\<rparr>)
     = Inr (Some 2, ParseArray_init\<lparr>pa_out := [JFloat (Finite 12)]\<rparr>,
            ParserPool_init\<lparr>float_value := Finite 12\<rparr>)"
    by code_simp
  from C9_reset_after_completion_and_Swap[where P = LFloat
      and a = "ParseArray_init\<lparr>pa_began := True, pa_finished := False\<rparr>" and xs = "''2]''"
      and pool = "ParserPool_init\<lparr>buffer := ''1'', float_finished := False, float_value := Finite 1\<rparr>"
      and n = 2 and a' = "ParseArray_init\<lparr>pa_out := [JFloat (Finite 12)]\<rparr>"
      and pool' = "ParserPool_init\<lparr>float_value := Finite 12\<rparr>"] ar s1
  have w1: "ParseArray_Swap (ParseArray_init\<lparr>pa_out := [JFloat (Finite 12)]\<rparr>)
     = Inr ([JFloat (Finite 12)], ParseArray_init)" by simp
  have cr: "container_reachable LFloat ParseContainerArray_init" by (rule container_new)
  have s2: "ParseContainerArray_Scan LFloat ''[[1]]'' ParseContainerArray_init ParserPool_init
     = Inr (Some 5, ParseContainerArray_init\<lparr>pc_out := [JArray [JFloat (Finite 1)]]\<rparr>,
            ParserPool_init\<lparr>float_value := Finite 1\<rparr>)"
    by code_simp
  from C9_reset_after_completion_and_Swap[where P = LFloat
      and c = ParseContainerArray_init and xs = "''[[1]]''" and pool = ParserPool_init
      and n = 5 and c' = "ParseContainerArray_init\<lparr>pc_out := [JArray [JFloat (Finite 1)]]\<rparr>"
      and pool' = "ParserPool_init\<lparr>float_value := Finite 1\<rparr>"] cr s2
  have w2: "ParseContainerArray_Swap (ParseContainerArray_init\<lparr>pc_out := [JArray [JFloat (Finite 1)]]\<rparr>)
     = Inr ([JArray [JFloat (Finite 1)]], ParseContainerArray_init)" by simp
  have nf: "new_fields [RequiredKeyValue ''name'' LFloat]" by code_simp
  have orr: "object_reachable [RequiredKeyValue ''name'' LFloat]
      (ParseObject_init [RequiredKeyValue ''name'' LFloat])" by (rule object_new)
  have s3: "ParseObject_Scan ([CHR ''{'', CHR 0x22] @ ''name'' @ [CHR 0x22] @ '':1}'')
        (ParseObject_init [RequiredKeyValue ''name'' LFloat]) ParserPool_init
     = Inr (Some 10,
            (ParseObject_init [RequiredKeyValue ''name'' LFloat])
              \<lparr>po_out := [\<lparr>vs_given = True, vs_value = JFloat (Finite 1)\<rparr>]\<rparr>,
            ParserPool_init\<lparr>float_value := Finite 0, string_value := ''name''\<rparr>)"
    by code_simp
  from C9_reset_after_completion_and_Swap[where kvs = "[RequiredKeyValue ''name'' LFloat]"
      and ob = "ParseObject_init [RequiredKeyValue ''name'' LFloat]"
      and xs = "[CHR ''{'', CHR 0x22] @ ''name'' @ [CHR 0x22] @ '':1}''" and pool = ParserPool_init
      and n = 10
      and ob' = "(ParseObject_init [RequiredKeyValue ''name'' LFloat])
              \<lparr>po_out := [\<lparr>vs_given = True, vs_value = JFloat (Finite 1)\<rparr>]\<rparr>"
      and pool' = "ParserPool_init\<lparr>float_value := Finite 0, string_value := ''name''\<rparr>"]
    nf orr s3
  have w3: "ParseObject_Swap ((ParseObject_init [RequiredKeyValue ''name'' LFloat])
              \<lparr>po_out := [\<lparr>vs_given = True, vs_value = JFloat (Finite 1)\<rparr>]\<rparr>)
     = ([\<lparr>vs_given = True, vs_value = JFloat (Finite 1)\<rparr>],
        ParseObject_init [RequiredKeyValue ''name'' LFloat])" by simp
  from ar s1 w1 cr s2 w2 nf orr s3 w3 show ?thesis by blast
qed

subsection \<open>Chunked input\<close>

text \<open>
  C1 at the input \<open>[1e5]\<close>. As one span the float array decodes to the array of 100000. Supplied
  as \<open>[1e\<close> followed by \<open>5]\<close>, the first call does not return the sentinel: \<open>strtof\<close> stops
  before the dangling exponent marker, which is before \<open>End\<close>, so \<open>ParseFloat::Scan\<close> takes the
  literal as complete with value 1 and the array scanner throws \<open>InvalidArraySeparator\<close> at the
  \<open>e\<close>. The float scanner alone shows the same: \<open>1e5\<close> before a space gives 100000, the span
  \<open>1e\<close> completes at position 1 with value 1.
\<close>

theorem C1_chunking_divergence:
  "ParseArray_Scan LFloat ''[1e5]'' ParseArray_init ParserPool_init
     = Inr (Some 5, ParseArray_init\<lparr>pa_out := [JFloat (Finite 100000)]\<rparr>,
            ParserPool_init\<lparr>float_value := Finite 100000\<rparr>)
   \<and> ParseArray_Scan LFloat ''[1e'' ParseArray_init ParserPool_init = Inl InvalidArraySeparator
   \<and> ParseFloat_Scan ''1e5 '' ParserPool_init
     = Inr (Some 3, ParserPool_init\<lparr>float_value := Finite 100000\<rparr>)
   \<and> ParseFloat_Scan ''1e'' ParserPool_init
     = Inr (Some 1, ParserPool_init\<lparr>float_value := Finite 1\<rparr>)"
  by code_simp


subsection \<open>Extraction before completion\<close>

text \<open>
  C2 at a concrete input. After the span \<open>{"name":1,\<close> the object scanner has returned the
  sentinel and \<open>finished\<close> is unset; \<open>ParseObject::Swap\<close> has no test of \<open>Finished()\<close> and
  hands out the record with the value decoded so far. \<open>ParseArray::Swap\<close> after \<open>[1\<close> and
  \<open>ParseContainerArray::Swap\<close> after \<open>[[]\<close> throw \<open>NotFinished\<close>, as they do after every scan
  that returned the sentinel (\<open>ParseArray_Scan_suspend\<close>, \<open>ParseContainerArray_Scan_suspend\<close>).
\<close>

theorem C2_object_Swap_before_completion:
  "ParseObject_Scan ([CHR ''{'', CHR 0x22] @ ''name'' @ [CHR 0x22] @ '':1,'')
       (ParseObject_init [KeyValue ''name'' LFloat]) ParserPool_init
     = Inr (None,
            (ParseObject_init [KeyValue ''name'' LFloat])
              \<lparr>po_out := [\<lparr>vs_given = True, vs_value = JFloat (Finite 1)\<rparr>],
               po_state := PreKey, po_finished := False\<rparr>,
            ParserPool_init\<lparr>float_value := Finite 0, string_value := ''name''\<rparr>)
   \<and> ParseObject_Swap
        ((ParseObject_init [KeyValue ''name'' LFloat])
           \<lparr>po_out := [\<lparr>vs_given = True, vs_value = JFloat (Finite 1)\<rparr>],
            po_state := PreKey, po_finished := False\<rparr>)
     = ([\<lparr>vs_given = True, vs_value = JFloat (Finite 1)\<rparr>],
        (ParseObject_init [KeyValue ''name'' LFloat])\<lparr>po_state := PreKey, po_finished := False\<rparr>)
   \<and> ParseArray_Scan LFloat ''[1'' ParseArray_init ParserPool_init
     = Inr (None, ParseArray_init\<lparr>pa_began := True, pa_finished := False\<rparr>,
            ParserPool_init\<lparr>buffer := ''1'', float_finished := False, float_value := Finite 1\<rparr>)
   \<and> ParseArray_Swap (ParseArray_init\<lparr>pa_began := True, pa_finished := False\<rparr>) = Inl NotFinished
   \<and> ParseContainerArray_Scan LFloat ''[[]'' ParseContainerArray_init ParserPool_init
     = Inr (None, ParseContainerArray_init\<lparr>pc_out := [JArray []], pc_began := True, pc_finished := False\<rparr>,
            ParserPool_init)
   \<and> ParseContainerArray_Swap
        (ParseContainerArray_init\<lparr>pc_out := [JArray []], pc_began := True, pc_finished := False\<rparr>)
     = Inl NotFinished"
  by code_simp


subsection \<open>Repeated keys\<close>

text \<open>
  An object is written as a list of members, each the index of a field, the text of its value
  and the value decoded from that text; \<open>object_text\<close> is the JSON text with no white space:
  the key of the field in quotes, a colon, the value text, members separated by commas. A key
  is \<open>plain\<close> when it has no quote, backslash or control character, and a pool is \<open>ready\<close>
  between two values: the scratch buffer is empty and the float and string parsers are finished.
\<close>

definition plain :: "string \<Rightarrow> bool" where
  "plain s = list_all (\<lambda>c. c \<noteq> CHR 0x5C \<and> c \<noteq> CHR 0x22 \<and> 31 < code_of c) s"

definition ready :: "ParserPool \<Rightarrow> bool" where
  "ready pool =
     (buffer pool = [] \<and> float_finished pool \<and> ps_finished (string_parser pool)
      \<and> \<not> ps_began (string_parser pool) \<and> \<not> ps_escaped (string_parser pool)
      \<and> ps_count (string_parser pool) = - 1)"

text \<open>The string scanner on a quoted plain key gives the key.\<close>

lemma ParseString_scan_plain:
  assumes "c \<noteq> CHR 0x5C" "c \<noteq> CHR 0x22" "31 < code_of c"
    and "\<not> ps_escaped (string_parser pool)" "ps_count (string_parser pool) = - 1"
  shows "\<exists>sv b. ParseString_scan c pool = Inr (False, pool\<lparr>string_value := sv, buffer := b\<rparr>)
           \<and> sv @ b = string_value pool @ buffer pool @ [c]"
proof (cases "length (buffer pool @ [c]) > length (string_value pool)")
  case True
  with assms have "ParseString_scan c pool
      = Inr (False, pool\<lparr>string_value := string_value pool @ buffer pool @ [c], buffer := []\<rparr>)"
    by (simp add: ParseString_scan_def Let_def)
  then show ?thesis
    by (intro exI[of _ "string_value pool @ buffer pool @ [c]"] exI[of _ "[]"]) simp
next
  case False
  with assms have "ParseString_scan c pool
      = Inr (False, pool\<lparr>string_value := string_value pool, buffer := buffer pool @ [c]\<rparr>)"
    by (simp add: ParseString_scan_def Let_def)
  then show ?thesis
    by (intro exI[of _ "string_value pool"] exI[of _ "buffer pool @ [c]"]) simp
qed

lemma ParseString_loop_plain:
  "plain cs \<Longrightarrow> \<not> ps_escaped (string_parser pool) \<Longrightarrow> ps_count (string_parser pool) = - 1
   \<Longrightarrow> ParseString_loop (cs @ CHR 0x22 # rest) i pool
       = Inr (Some (i + length cs + 1),
              pool\<lparr>string_value := string_value pool @ buffer pool @ cs,
                   string_parser := (string_parser pool)\<lparr>ps_began := False, ps_finished := True\<rparr>,
                   buffer := []\<rparr>)"
proof (induction cs arbitrary: i pool)
  case Nil
  then show ?case by (simp add: ParseString_scan_def Let_def)
next
  case (Cons c cs)
  from Cons.prems(1) have c: "c \<noteq> CHR 0x5C" "c \<noteq> CHR 0x22" "31 < code_of c" and p: "plain cs"
    by (simp_all add: plain_def)
  from ParseString_scan_plain[OF c Cons.prems(2,3)] obtain sv b where
    s: "ParseString_scan c pool = Inr (False, pool\<lparr>string_value := sv, buffer := b\<rparr>)"
    and v: "sv @ b = string_value pool @ buffer pool @ [c]"
    by blast
  define pool1 where "pool1 = pool\<lparr>string_value := sv, buffer := b\<rparr>"
  from Cons.prems have e: "\<not> ps_escaped (string_parser pool1)" "ps_count (string_parser pool1) = - 1"
    by (simp_all add: pool1_def)
  from v have w: "sv @ b @ cs = string_value pool @ buffer pool @ c # cs"
    by (metis append.assoc append_Cons append_Nil)
  have "ParseString_loop ((c # cs) @ CHR 0x22 # rest) i pool
      = ParseString_loop (cs @ CHR 0x22 # rest) (i + 1) pool1"
    using s by (simp add: pool1_def)
  also have "\<dots> = Inr (Some (i + 1 + length cs + 1),
              pool1\<lparr>string_value := string_value pool1 @ buffer pool1 @ cs,
                   string_parser := (string_parser pool1)\<lparr>ps_began := False, ps_finished := True\<rparr>,
                   buffer := []\<rparr>)"
    by (rule Cons.IH[OF p e])
  also have "\<dots> = Inr (Some (i + length (c # cs) + 1),
              pool\<lparr>string_value := string_value pool @ buffer pool @ c # cs,
                   string_parser := (string_parser pool)\<lparr>ps_began := False, ps_finished := True\<rparr>,
                   buffer := []\<rparr>)"
    using w by (simp add: pool1_def)
  finally show ?case .
qed

lemma ParseString_Scan_plain:
  assumes "plain key" "ready pool"
  shows "ParseString_Scan (CHR 0x22 # key @ CHR 0x22 # rest) pool
       = Inr (Some (length key + 2), pool\<lparr>string_value := key\<rparr>)"
proof -
  let ?p = "pool\<lparr>string_value := [], string_parser := (string_parser pool)\<lparr>ps_began := True\<rparr>\<rparr>"
  from assms(2) have e: "\<not> ps_escaped (string_parser ?p)" "ps_count (string_parser ?p) = - 1"
    by (simp_all add: ready_def)
  from assms(2) have "ParseString_Scan (CHR 0x22 # key @ CHR 0x22 # rest) pool
      = ParseString_loop (key @ CHR 0x22 # rest) 1 ?p"
    by (simp add: ParseString_Scan_def ready_def deref_def)
  also from ParseString_loop_plain[OF assms(1) e, of rest 1] assms(2)
  have "\<dots> = Inr (Some (length key + 2), pool\<lparr>string_value := key\<rparr>)"
    by (simp add: ready_def)
  finally show ?thesis .
qed

lemma ready_string_value: "ready pool \<Longrightarrow> ready (pool\<lparr>string_value := s\<rparr>)"
  by (simp add: ready_def)

lemma c_str_plain: "plain s \<Longrightarrow> c_str s = s"
proof -
  assume p: "plain s"
  have "\<forall>c \<in> set s. c \<noteq> CHR 0x00"
  proof
    fix c assume "c \<in> set s"
    with p have "31 < code_of c" by (simp add: plain_def list_all_iff)
    then show "c \<noteq> CHR 0x00" by (auto simp: code_of_def)
  qed
  then show ?thesis unfolding c_str_def by (simp add: takeWhile_eq_all_conv)
qed

text \<open>
  \<open>setActivating\<close> finds the first field whose key equals the incoming one as a C string, and
  finds none exactly when no field has that key.
\<close>

lemma setActivating_first_match:
  "setActivating fs key j = Some k
   \<longleftrightarrow> j \<le> k \<and> k - j < length fs \<and> c_str key = c_str (Key (fs ! (k - j)))
       \<and> (\<forall>i < k - j. c_str key \<noteq> c_str (Key (fs ! i)))"
proof (induction fs arbitrary: j)
  case Nil
  show ?case by simp
next
  case (Cons f fs)
  show ?case
  proof (cases "c_str key = c_str (Key f)")
    case True
    show ?thesis
    proof (cases "k = j")
      case True
      with \<open>c_str key = c_str (Key f)\<close> show ?thesis by simp
    next
      case False
      have "\<not> (j \<le> k \<and> (\<forall>i < k - j. c_str key \<noteq> c_str (Key ((f # fs) ! i))))"
      proof
        assume a: "j \<le> k \<and> (\<forall>i < k - j. c_str key \<noteq> c_str (Key ((f # fs) ! i)))"
        with False have "0 < k - j" by simp
        with a have "c_str key \<noteq> c_str (Key ((f # fs) ! 0))" by blast
        with True show False by simp
      qed
      moreover from True False have "setActivating (f # fs) key j \<noteq> Some k" by simp
      ultimately show ?thesis by blast
    qed
  next
    case False
    have "setActivating (f # fs) key j = Some k \<longleftrightarrow> setActivating fs key (j + 1) = Some k"
      using False by simp
    also have "\<dots> \<longleftrightarrow> j + 1 \<le> k \<and> k - (j + 1) < length fs
        \<and> c_str key = c_str (Key (fs ! (k - (j + 1))))
        \<and> (\<forall>i < k - (j + 1). c_str key \<noteq> c_str (Key (fs ! i)))"
      by (rule Cons.IH)
    also have "\<dots> \<longleftrightarrow> j \<le> k \<and> k - j < length (f # fs) \<and> c_str key = c_str (Key ((f # fs) ! (k - j)))
       \<and> (\<forall>i < k - j. c_str key \<noteq> c_str (Key ((f # fs) ! i)))"
    proof (cases "k - j")
      case 0
      then have "\<not> j + 1 \<le> k" by simp
      moreover from 0 False have "c_str key \<noteq> c_str (Key ((f # fs) ! (k - j)))" by simp
      ultimately show ?thesis by blast
    next
      case (Suc m)
      then have m: "k - (j + 1) = m" "j + 1 \<le> k" "j \<le> k" by simp_all
      have q: "(\<forall>i < Suc m. c_str key \<noteq> c_str (Key ((f # fs) ! i)))
            \<longleftrightarrow> (\<forall>i < m. c_str key \<noteq> c_str (Key (fs ! i)))"
      proof
        assume a: "\<forall>i < Suc m. c_str key \<noteq> c_str (Key ((f # fs) ! i))"
        show "\<forall>i < m. c_str key \<noteq> c_str (Key (fs ! i))"
        proof (intro allI impI)
          fix i assume "i < m"
          then have "Suc i < Suc m" by simp
          with a have "c_str key \<noteq> c_str (Key ((f # fs) ! Suc i))" by blast
          then show "c_str key \<noteq> c_str (Key (fs ! i))" by simp
        qed
      next
        assume a: "\<forall>i < m. c_str key \<noteq> c_str (Key (fs ! i))"
        show "\<forall>i < Suc m. c_str key \<noteq> c_str (Key ((f # fs) ! i))"
        proof (intro allI impI)
          fix i assume i: "i < Suc m"
          show "c_str key \<noteq> c_str (Key ((f # fs) ! i))"
          proof (cases i)
            case 0
            with False show ?thesis by simp
          next
            case (Suc i')
            with i a show ?thesis by simp
          qed
        qed
      qed
      show ?thesis unfolding Suc m(1) q using m(2,3) by simp
    qed
    finally show ?thesis .
  qed
qed

text \<open>
  \<open>scans_as kv t v\<close>: the scanner of field \<open>kv\<close>, started on the text \<open>t\<close> followed by a comma
  or a closing brace, consumes exactly \<open>t\<close>, and its \<open>Swap\<close> stores \<open>v\<close> and leaves the field as
  it was. A member is \<open>member_ok\<close> when its index is that of the first field with its key, the
  key is plain, and the text scans as the value.
\<close>

definition scans_as :: "ScanningKeyValue \<Rightarrow> string \<Rightarrow> jvalue \<Rightarrow> bool" where
  "scans_as kv t v =
     (t \<noteq> [] \<and> \<not> is_ws (hd t) \<and>
      (\<forall>pool vs c rest. ready pool \<and> (c = CHR '','' \<or> c = CHR ''}'') \<longrightarrow>
         (\<exists>kv1 pool1 pool2.
            Scanner_Scan kv (t @ c # rest) pool = Inr (Some (length t), kv1, pool1)
            \<and> KeyValue_Swap kv1 vs pool1 = Inr (kv, vs\<lparr>vs_value := v, vs_given := True\<rparr>, pool2)
            \<and> ready pool2)))"

definition member_text :: "ScanningKeyValue list \<Rightarrow> nat \<times> string \<times> jvalue \<Rightarrow> string" where
  "member_text kvs m = (case m of (k, t, v) \<Rightarrow> CHR 0x22 # Key (kvs ! k) @ CHR 0x22 # CHR '':'' # t)"

fun members_text :: "ScanningKeyValue list \<Rightarrow> (nat \<times> string \<times> jvalue) list \<Rightarrow> string" where
  "members_text kvs [] = ''}''"
| "members_text kvs [m] = member_text kvs m @ ''}''"
| "members_text kvs (m # m' # ms) = member_text kvs m @ CHR '','' # members_text kvs (m' # ms)"

definition object_text :: "ScanningKeyValue list \<Rightarrow> (nat \<times> string \<times> jvalue) list \<Rightarrow> string" where
  "object_text kvs ms = CHR ''{'' # members_text kvs ms"

definition member_ok :: "ScanningKeyValue list \<Rightarrow> nat \<times> string \<times> jvalue \<Rightarrow> bool" where
  "member_ok kvs m =
     (case m of (k, t, v) \<Rightarrow>
        k < length kvs \<and> plain (Key (kvs ! k))
        \<and> list_all (\<lambda>i. c_str (Key (kvs ! i)) \<noteq> Key (kvs ! k)) [0 ..< k]
        \<and> scans_as (kvs ! k) t v)"

definition store :: "ValueStore list \<Rightarrow> nat \<times> string \<times> jvalue \<Rightarrow> ValueStore list" where
  "store out m = (case m of (k, t, v) \<Rightarrow> out[k := (out ! k)\<lparr>vs_value := v, vs_given := True\<rparr>])"

text \<open>Each block of the loop body at the text it expects.\<close>

lemma drop_deref: "drop b xs = y # ys \<Longrightarrow> deref xs b = y \<and> b < length xs"
proof -
  assume a: "drop b xs = y # ys"
  then have l: "b < length xs" by (cases "b < length xs") simp_all
  from a have "hd (drop b xs) = y" by simp
  with l have "xs ! b = y" by (simp add: hd_drop_conv_nth)
  with l show ?thesis by (simp add: deref_def)
qed

lemma drop_mid: "xs = pre @ mid @ post \<Longrightarrow> drop (length pre + length mid) xs = post"
  by simp

lemma PreKey_at:
  assumes "po_state ob = PreKey" "drop b xs = y # ys" "\<not> is_ws y" "y \<noteq> CHR ''}''"
  shows "ParseObject_PreKey xs b (ob, pool)
       = Continue b (ob\<lparr>po_state := ExpectKey\<rparr>, pool\<lparr>ws_finished := True, buffer := []\<rparr>)"
  using assms drop_deref[OF assms(2)] SkipWhitespace_Scan_no_progress[of "drop b xs" pool]
  by (simp add: ParseObject_PreKey_def)

lemma PreKey_close:
  assumes "po_state ob = PreKey" "drop b xs = CHR ''}'' # ys"
  shows "ParseObject_PreKey xs b (ob, pool)
       = checkPassed (b + 1) ob (pool\<lparr>ws_finished := True, buffer := []\<rparr>)"
  using assms drop_deref[OF assms(2)] SkipWhitespace_Scan_no_progress[of "drop b xs" pool]
  by (simp add: ParseObject_PreKey_def is_ws_def)

lemma ExpectKey_at:
  assumes "po_state ob = ExpectKey" "drop b xs = CHR 0x22 # key @ CHR 0x22 # ys" "plain key" "ready pool"
    and "k < length (po_parsers ob)" "Key (po_parsers ob ! k) = key"
    and "\<forall>i < k. c_str (Key (po_parsers ob ! i)) \<noteq> key"
  shows "ParseObject_ExpectKey xs b (ob, pool)
       = Continue (b + (length key + 2))
           (ob\<lparr>po_activating := int k, po_state := PreColon\<rparr>, pool\<lparr>string_value := key\<rparr>)"
proof -
  have "setActivating (po_parsers ob) key 0 = Some k"
    unfolding setActivating_first_match using assms(3,5,6,7) by (auto simp: c_str_plain)
  with assms(1,2) ParseString_Scan_plain[OF assms(3,4), of ys] show ?thesis
    by (simp add: ParseObject_ExpectKey_def)
qed

lemma PreColon_at:
  assumes "po_state ob = PreColon" "drop b xs = y # ys" "\<not> is_ws y"
  shows "ParseObject_PreColon xs b (ob, pool)
       = Continue b (ob\<lparr>po_state := ExpectColon\<rparr>, pool\<lparr>ws_finished := True, buffer := []\<rparr>)"
  using assms SkipWhitespace_Scan_no_progress[of "drop b xs" pool]
  by (simp add: ParseObject_PreColon_def)

lemma ExpectColon_at:
  assumes "po_state ob = ExpectColon" "drop b xs = CHR '':'' # y # ys"
  shows "ParseObject_ExpectColon xs b (ob, pool) = Continue (b + 1) (ob\<lparr>po_state := PreValue\<rparr>, pool)"
proof -
  from assms(2) have "length (drop b xs) = Suc (Suc (length ys))" by simp
  then have "b + 1 \<noteq> length xs" by simp
  with assms(1) drop_deref[OF assms(2)] show ?thesis by (simp add: ParseObject_ExpectColon_def)
qed

lemma PreValue_at:
  assumes "po_state ob = PreValue" "drop b xs = y # ys" "\<not> is_ws y"
  shows "ParseObject_PreValue xs b (ob, pool)
       = Continue b (ob\<lparr>po_active := po_activating ob, po_activating := - 1, po_state := ExpectValue\<rparr>,
                     pool\<lparr>ws_finished := True, buffer := []\<rparr>)"
  using assms SkipWhitespace_Scan_no_progress[of "drop b xs" pool]
  by (simp add: ParseObject_PreValue_def)

lemma ExpectValue_at:
  assumes "po_state ob = ExpectValue" "po_active ob = int k" "k < length (po_parsers ob)"
    "k < length (po_out ob)"
    and "Scanner_Scan (po_parsers ob ! k) (drop b xs) pool = Inr (Some n, kv1, pool1)"
    and "KeyValue_Swap kv1 (po_out ob ! k) pool1 = Inr (kv2, vs, pool2)"
  shows "ParseObject_ExpectValue xs b (ob, pool)
       = Continue (b + n)
           (ob\<lparr>po_parsers := (po_parsers ob)[k := kv2], po_out := (po_out ob)[k := vs],
               po_active := - 1, po_state := PreComma\<rparr>, pool2)"
  using assms by (simp add: ParseObject_ExpectValue_def)

lemma PreComma_at:
  assumes "po_state ob = PreComma" "drop b xs = y # ys" "\<not> is_ws y"
  shows "ParseObject_PreComma xs b (ob, pool)
       = Continue b (ob\<lparr>po_state := ExpectComma\<rparr>, pool\<lparr>ws_finished := True, buffer := []\<rparr>)"
  using assms SkipWhitespace_Scan_no_progress[of "drop b xs" pool]
  by (simp add: ParseObject_PreComma_def)

lemma ready_skip: "ready pool \<Longrightarrow> ready (pool\<lparr>ws_finished := True, buffer := []\<rparr>)"
  by (simp add: ready_def)

lemma thenDo_Continue_eq: "thenDo (Continue b s) f = f b s"
  by (simp add: thenDo_def)

lemma scans_asD:
  assumes "scans_as kv t v" "ready pool" "c = CHR '','' \<or> c = CHR ''}''"
  shows "\<exists>kv1 pool1 pool2.
            Scanner_Scan kv (t @ c # rest) pool = Inr (Some (length t), kv1, pool1)
            \<and> KeyValue_Swap kv1 vs pool1 = Inr (kv, vs\<lparr>vs_value := v, vs_given := True\<rparr>, pool2)
            \<and> ready pool2"
proof -
  from assms(1) have "\<forall>pool vs c rest. ready pool \<and> (c = CHR '','' \<or> c = CHR ''}'') \<longrightarrow>
         (\<exists>kv1 pool1 pool2.
            Scanner_Scan kv (t @ c # rest) pool = Inr (Some (length t), kv1, pool1)
            \<and> KeyValue_Swap kv1 vs pool1 = Inr (kv, vs\<lparr>vs_value := v, vs_given := True\<rparr>, pool2)
            \<and> ready pool2)"
    unfolding scans_as_def by (elim conjE)
  from this[rule_format, where pool = pool and c = c and vs = vs and rest = rest, OF conjI[OF assms(2,3)]]
  show ?thesis .
qed

text \<open>
  One member: from \<open>PreKey\<close> at the opening quote of the key to \<open>ExpectComma\<close> behind the value.
  The slot of the field takes the value and its flag is set, whatever it held before.
\<close>

lemma member_pass:
  assumes st: "po_state ob = PreKey"
    and len: "length (po_out ob) = length (po_parsers ob)"
    and ok: "member_ok (po_parsers ob) (k, t, v)"
    and rd: "ready pool"
    and xs: "xs = pre @ member_text (po_parsers ob) (k, t, v) @ c # rest"
    and c: "c = CHR '','' \<or> c = CHR ''}''"
  shows "\<exists>pool'. ready pool' \<and>
     thenDo (thenDo (thenDo (thenDo (thenDo (thenDo
       (ParseObject_PreKey xs (length pre) (ob, pool))
       (ParseObject_ExpectKey xs))
       (ParseObject_PreColon xs))
       (ParseObject_ExpectColon xs))
       (ParseObject_PreValue xs))
       (ParseObject_ExpectValue xs))
       (ParseObject_PreComma xs)
     = Continue (length pre + length (member_text (po_parsers ob) (k, t, v)))
         (ob\<lparr>po_out := store (po_out ob) (k, t, v), po_activating := - 1, po_active := - 1,
             po_state := ExpectComma\<rparr>, pool')"
proof -
  define key where "key = Key (po_parsers ob ! k)"
  define b0 where "b0 = length pre"
  define b2 where "b2 = b0 + (length key + 2)"
  from ok have k: "k < length (po_parsers ob)" and pl: "plain key"
    and fm: "\<forall>i < k. c_str (Key (po_parsers ob ! i)) \<noteq> key"
    and sc: "scans_as (po_parsers ob ! k) t v"
    by (simp_all add: member_ok_def key_def list_all_iff)
  from sc have t: "t \<noteq> []" "\<not> is_ws (hd t)" by (simp_all add: scans_as_def)
  then obtain y ys where ty: "t = y # ys" "\<not> is_ws y" by (cases t) auto
  from c have cw: "\<not> is_ws c" by (auto simp: is_ws_def)
  have d0: "drop b0 xs = CHR 0x22 # key @ CHR 0x22 # CHR '':'' # t @ c # rest"
    by (simp add: xs b0_def member_text_def key_def)
  have "xs = pre @ (CHR 0x22 # key @ [CHR 0x22]) @ (CHR '':'' # t @ c # rest)"
    by (simp add: xs member_text_def key_def)
  from drop_mid[OF this] have d2: "drop b2 xs = CHR '':'' # t @ c # rest"
    by (simp add: b2_def b0_def)
  have "xs = pre @ (CHR 0x22 # key @ [CHR 0x22, CHR '':'']) @ (t @ c # rest)"
    by (simp add: xs member_text_def key_def)
  from drop_mid[OF this] have d4: "drop (b2 + 1) xs = t @ c # rest"
    by (simp add: b2_def b0_def)
  have "xs = pre @ (CHR 0x22 # key @ [CHR 0x22, CHR '':''] @ t) @ (c # rest)"
    by (simp add: xs member_text_def key_def)
  from drop_mid[OF this] have d6: "drop (b2 + 1 + length t) xs = c # rest"
    by (simp add: b2_def b0_def add.assoc)
  define p1 where "p1 = pool\<lparr>ws_finished := True, buffer := []\<rparr>"
  define p2 where "p2 = p1\<lparr>string_value := key\<rparr>"
  define p3 where "p3 = p2\<lparr>ws_finished := True, buffer := []\<rparr>"
  define p5 where "p5 = p3\<lparr>ws_finished := True, buffer := []\<rparr>"
  have r1: "ready p1" unfolding p1_def by (rule ready_skip[OF rd])
  then have r2: "ready p2" unfolding p2_def by (rule ready_string_value)
  then have r3: "ready p3" unfolding p3_def by (rule ready_skip)
  then have r5: "ready p5" unfolding p5_def by (rule ready_skip)
  define ob1 where "ob1 = ob\<lparr>po_state := ExpectKey\<rparr>"
  define ob2 where "ob2 = ob1\<lparr>po_activating := int k, po_state := PreColon\<rparr>"
  define ob3 where "ob3 = ob2\<lparr>po_state := ExpectColon\<rparr>"
  define ob4 where "ob4 = ob3\<lparr>po_state := PreValue\<rparr>"
  define ob5 where "ob5 = ob4\<lparr>po_active := po_activating ob4, po_activating := - 1,
                              po_state := ExpectValue\<rparr>"
  have s1: "ParseObject_PreKey xs b0 (ob, pool) = Continue b0 (ob1, p1)"
    unfolding ob1_def p1_def by (rule PreKey_at[OF st d0]) (simp_all add: is_ws_def)
  have s2: "ParseObject_ExpectKey xs b0 (ob1, p1) = Continue b2 (ob2, p2)"
    unfolding ob2_def p2_def b2_def
    by (rule ExpectKey_at[OF _ d0 pl r1, of ob1 k])
       (simp_all add: ob1_def k key_def fm[unfolded key_def])
  have s3: "ParseObject_PreColon xs b2 (ob2, p2) = Continue b2 (ob3, p3)"
    unfolding ob3_def p3_def
    by (rule PreColon_at[OF _ d2]) (simp_all add: ob2_def is_ws_def)
  have s4: "ParseObject_ExpectColon xs b2 (ob3, p3) = Continue (b2 + 1) (ob4, p3)"
    unfolding ob4_def
    by (rule ExpectColon_at[of _ _ _ y "ys @ c # rest"]) (simp_all add: ob3_def d2 ty)
  have s5: "ParseObject_PreValue xs (b2 + 1) (ob4, p3) = Continue (b2 + 1) (ob5, p5)"
    unfolding ob5_def p5_def
    by (rule PreValue_at[of _ _ _ y "ys @ c # rest"]) (use d4 in \<open>simp_all add: ob4_def ty\<close>)
  from scans_asD[OF sc r5 c, of rest "po_out ob ! k"] obtain kv1 pool1 pool2 where
    sv: "Scanner_Scan (po_parsers ob ! k) (t @ c # rest) p5 = Inr (Some (length t), kv1, pool1)"
    and sw: "KeyValue_Swap kv1 (po_out ob ! k) pool1
           = Inr (po_parsers ob ! k, (po_out ob ! k)\<lparr>vs_value := v, vs_given := True\<rparr>, pool2)"
    and r6: "ready pool2"
    by blast
  define ob6 where "ob6 = ob5\<lparr>po_parsers := (po_parsers ob5)[k := po_parsers ob ! k],
      po_out := (po_out ob5)[k := (po_out ob ! k)\<lparr>vs_value := v, vs_given := True\<rparr>],
      po_active := - 1, po_state := PreComma\<rparr>"
  have o5: "po_parsers ob5 = po_parsers ob" "po_out ob5 = po_out ob" "po_state ob5 = ExpectValue"
    "po_active ob5 = int k"
    by (simp_all add: ob5_def ob4_def ob3_def ob2_def ob1_def)
  have s6: "ParseObject_ExpectValue xs (b2 + 1) (ob5, p5) = Continue (b2 + 1 + length t) (ob6, pool2)"
  proof -
    have sv5: "Scanner_Scan (po_parsers ob5 ! k) (drop (b2 + 1) xs) p5
             = Inr (Some (length t), kv1, pool1)"
      using sv d4 o5 by simp
    have sw5: "KeyValue_Swap kv1 (po_out ob5 ! k) pool1
           = Inr (po_parsers ob ! k, (po_out ob ! k)\<lparr>vs_value := v, vs_given := True\<rparr>, pool2)"
      using sw o5 by simp
    show ?thesis unfolding ob6_def
      by (rule ExpectValue_at[OF o5(3) o5(4) _ _ sv5 sw5]) (simp_all add: o5 k len)
  qed
  define p7 where "p7 = pool2\<lparr>ws_finished := True, buffer := []\<rparr>"
  have r7: "ready p7" unfolding p7_def by (rule ready_skip[OF r6])
  have s7: "ParseObject_PreComma xs (b2 + 1 + length t) (ob6, pool2)
          = Continue (b2 + 1 + length t) (ob6\<lparr>po_state := ExpectComma\<rparr>, p7)"
    unfolding p7_def by (rule PreComma_at[OF _ d6 cw]) (simp add: ob6_def)
  have fin: "ob6\<lparr>po_state := ExpectComma\<rparr>
      = ob\<lparr>po_out := store (po_out ob) (k, t, v), po_activating := - 1, po_active := - 1,
             po_state := ExpectComma\<rparr>"
    by (simp add: ob6_def o5 ob5_def ob4_def ob3_def ob2_def ob1_def store_def)
  have pos: "b2 + 1 + length t = length pre + length (member_text (po_parsers ob) (k, t, v))"
    by (simp add: b2_def b0_def member_text_def key_def)
  have "thenDo (thenDo (thenDo (thenDo (thenDo (thenDo
       (ParseObject_PreKey xs (length pre) (ob, pool))
       (ParseObject_ExpectKey xs))
       (ParseObject_PreColon xs))
       (ParseObject_ExpectColon xs))
       (ParseObject_PreValue xs))
       (ParseObject_ExpectValue xs))
       (ParseObject_PreComma xs)
     = Continue (b2 + 1 + length t) (ob6\<lparr>po_state := ExpectComma\<rparr>, p7)"
    using s1 s2 s3 s4 s5 s6 s7 by (simp add: thenDo_Continue_eq b0_def[symmetric])
  with r7 show ?thesis unfolding fin pos by blast
qed

text \<open>The result of \<open>checkPassed\<close> on a record \<open>out\<close>, as \<open>Scan\<close> returns it.\<close>

definition finish ::
  "nat \<Rightarrow> ParseObject \<Rightarrow> ValueStore list \<Rightarrow> ParserPool
   \<Rightarrow> ParserException + (nat option \<times> ParseObject \<times> ParserPool)" where
  "finish n ob out pool =
     (if list_ex (\<lambda>k. Required (po_parsers ob ! k) \<and> \<not> vs_given (out ! k)) [0 ..< length out]
      then Inl RequiredKeyNotGiven
      else Inr (Some n, ob\<lparr>po_out := out, po_state := NotStarted, po_activating := - 1,
                           po_active := - 1, po_finished := True\<rparr>, pool))"

lemma thenDo_checkPassed: "thenDo (checkPassed n ob pool) f = checkPassed n ob pool"
  by (simp add: checkPassed_def thenDo_def)

lemma checkPassed_finish:
  "(case checkPassed n ob pool of Throw e \<Rightarrow> Inl e | Return r s \<Rightarrow> Inr (r, s)
      | Continue b s \<Rightarrow> X b s) = finish n ob (po_out ob) pool"
  by (simp add: checkPassed_def finish_def)

lemma finish_cong:
  "po_parsers ob' = po_parsers ob \<Longrightarrow> po_finished ob' = po_finished ob
   \<Longrightarrow> ParseObject.more ob' = ParseObject.more ob
   \<Longrightarrow> finish n ob' out pool = finish n ob out pool"
  by (simp add: finish_def)

lemma ExpectComma_comma:
  assumes "po_state ob = ExpectComma" "drop b xs = CHR '','' # ys"
  shows "ParseObject_ExpectComma xs b (ob, pool) = Continue (b + 1) (ob\<lparr>po_state := PreKey\<rparr>, pool)"
  using assms(1) drop_deref[OF assms(2)] by (simp add: ParseObject_ExpectComma_def)

lemma ExpectComma_close:
  assumes "po_state ob = ExpectComma" "drop b xs = CHR ''}'' # ys"
  shows "ParseObject_ExpectComma xs b (ob, pool) = checkPassed (b + 1) ob pool"
  using assms(1) drop_deref[OF assms(2)] by (simp add: ParseObject_ExpectComma_def)

lemma store_length: "length (store out m) = length out"
  by (cases m) (simp add: store_def)

lemma loop_members:
  "po_parsers ob = kvs \<Longrightarrow> po_state ob = PreKey \<Longrightarrow> length (po_out ob) = length kvs
   \<Longrightarrow> list_all (member_ok kvs) ms \<Longrightarrow> ready pool \<Longrightarrow> xs = pre @ members_text kvs ms
   \<Longrightarrow> \<exists>pool'. ParseObject_loop xs (length pre) ob pool
               = finish (length xs) ob (foldl store (po_out ob) ms) pool'"
proof (induction kvs ms arbitrary: ob pool pre rule: members_text.induct)
  case (1 kvs)
  from 1(6) have d: "drop (length pre) xs = CHR ''}'' # []" by simp
  from 1(6) have l: "length pre < length xs" "length xs = length pre + 1" by simp_all
  have "ParseObject_body xs (length pre) (ob, pool)
      = checkPassed (length pre + 1) ob (pool\<lparr>ws_finished := True, buffer := []\<rparr>)"
    unfolding ParseObject_body_def PreKey_close[OF 1(2) d] thenDo_checkPassed ..
  then have "ParseObject_loop xs (length pre) ob pool
      = finish (length xs) ob (po_out ob) (pool\<lparr>ws_finished := True, buffer := []\<rparr>)"
    using l 1(2) by (simp add: ParseObject_loop.simps[of xs "length pre"] checkPassed_finish)
  then show ?case by auto
next
  case (2 kvs m)
  obtain k t v where m: "m = (k, t, v)" by (cases m)
  from 2(4) have ok: "member_ok (po_parsers ob) (k, t, v)" by (simp add: m 2(1))
  have xs: "xs = pre @ member_text (po_parsers ob) (k, t, v) @ CHR ''}'' # []"
    by (simp add: 2(6) 2(1) m)
  define p where "p = length pre + length (member_text (po_parsers ob) (k, t, v))"
  define ob' where "ob' = ob\<lparr>po_out := store (po_out ob) (k, t, v), po_activating := - 1,
                             po_active := - 1, po_state := ExpectComma\<rparr>"
  from member_pass[OF 2(2) _ ok 2(5) xs] 2(1,3) obtain pool' where
    mp: "thenDo (thenDo (thenDo (thenDo (thenDo (thenDo
       (ParseObject_PreKey xs (length pre) (ob, pool))
       (ParseObject_ExpectKey xs))
       (ParseObject_PreColon xs))
       (ParseObject_ExpectColon xs))
       (ParseObject_PreValue xs))
       (ParseObject_ExpectValue xs))
       (ParseObject_PreComma xs) = Continue p (ob', pool')"
    unfolding p_def ob'_def by auto
  have "xs = pre @ member_text (po_parsers ob) (k, t, v) @ ''}''" by (simp add: xs)
  from drop_mid[OF this] have d: "drop p xs = CHR ''}'' # []" by (simp add: p_def)
  have l: "length pre < length xs" "length xs = p + 1" by (simp_all add: xs p_def)
  have "ParseObject_body xs (length pre) (ob, pool) = checkPassed (p + 1) ob' pool'"
    unfolding ParseObject_body_def mp thenDo_Continue_eq
    by (rule ExpectComma_close[OF _ d]) (simp add: ob'_def)
  then have "ParseObject_loop xs (length pre) ob pool = finish (length xs) ob' (po_out ob') pool'"
    using l 2(2) by (simp add: ParseObject_loop.simps[of xs "length pre"] checkPassed_finish)
  also have "\<dots> = finish (length xs) ob (foldl store (po_out ob) [m]) pool'"
    by (simp add: finish_def ob'_def m)
  finally show ?case by blast
next
  case (3 kvs m m' ms)
  obtain k t v where m: "m = (k, t, v)" by (cases m)
  from 3(5) have ok: "member_ok (po_parsers ob) (k, t, v)" by (simp add: m 3(2))
  have xs: "xs = pre @ member_text (po_parsers ob) (k, t, v) @ CHR '','' # members_text kvs (m' # ms)"
    by (simp add: 3(7) 3(2) m)
  define p where "p = length pre + length (member_text (po_parsers ob) (k, t, v))"
  define ob' where "ob' = ob\<lparr>po_out := store (po_out ob) (k, t, v), po_activating := - 1,
                             po_active := - 1, po_state := ExpectComma\<rparr>"
  from member_pass[OF 3(3) _ ok 3(6) xs] 3(2,4) obtain pool' where
    rd: "ready pool'" and
    mp: "thenDo (thenDo (thenDo (thenDo (thenDo (thenDo
       (ParseObject_PreKey xs (length pre) (ob, pool))
       (ParseObject_ExpectKey xs))
       (ParseObject_PreColon xs))
       (ParseObject_ExpectColon xs))
       (ParseObject_PreValue xs))
       (ParseObject_ExpectValue xs))
       (ParseObject_PreComma xs) = Continue p (ob', pool')"
    unfolding p_def ob'_def by auto
  from drop_mid[OF xs] have d: "drop p xs = CHR '','' # members_text kvs (m' # ms)"
    by (simp add: p_def)
  have l: "length pre < length xs" by (simp add: xs)
  define ob2 where "ob2 = ob'\<lparr>po_state := PreKey\<rparr>"
  have "ParseObject_body xs (length pre) (ob, pool) = Continue (p + 1) (ob2, pool')"
    unfolding ParseObject_body_def mp thenDo_Continue_eq ob2_def
    by (rule ExpectComma_comma[OF _ d]) (simp add: ob'_def)
  then have "ParseObject_loop xs (length pre) ob pool = ParseObject_loop xs (p + 1) ob2 pool'"
    using l 3(3) by (simp add: ParseObject_loop.simps[of xs "length pre"])
  moreover
  have x2: "xs = (pre @ member_text (po_parsers ob) (k, t, v) @ '','') @ members_text kvs (m' # ms)"
    by (simp add: xs)
  have lp: "length (pre @ member_text (po_parsers ob) (k, t, v) @ '','') = p + 1"
    by (simp add: p_def)
  from 3(5) have oks: "list_all (member_ok kvs) (m' # ms)" by simp
  have "\<exists>pool''. ParseObject_loop xs (length (pre @ member_text (po_parsers ob) (k, t, v) @ '','')) ob2 pool'
               = finish (length xs) ob2 (foldl store (po_out ob2) (m' # ms)) pool''"
    by (rule 3(1)[OF _ _ _ oks rd x2]) (simp_all add: ob2_def ob'_def 3(2) 3(4) store_length)
  then obtain pool'' where "ParseObject_loop xs (p + 1) ob2 pool'
               = finish (length xs) ob2 (foldl store (po_out ob2) (m' # ms)) pool''"
    unfolding lp by blast
  moreover have "finish (length xs) ob2 (foldl store (po_out ob2) (m' # ms)) pool''
      = finish (length xs) ob (foldl store (po_out ob) (m # m' # ms)) pool''"
    by (simp add: finish_def ob2_def ob'_def m)
  ultimately show ?case by auto
qed

text \<open>
  \<open>last_value j ms\<close> is the value of the last member of \<open>ms\<close> for field \<open>j\<close>, and \<open>decoded\<close> the
  record that holds for every field the value of its last member, with the flag set, or the
  default value with the flag unset when the field has no member.
\<close>

fun last_value :: "nat \<Rightarrow> (nat \<times> string \<times> jvalue) list \<Rightarrow> jvalue option" where
  "last_value j [] = None"
| "last_value j (m # ms) =
     (case last_value j ms of
        Some w \<Rightarrow> Some w
      | None \<Rightarrow> (case m of (k, t, v) \<Rightarrow> if k = j then Some v else None))"

definition decoded ::
  "ScanningKeyValue list \<Rightarrow> (nat \<times> string \<times> jvalue) list \<Rightarrow> ValueStore list" where
  "decoded kvs ms =
     map (\<lambda>j. case last_value j ms of
                 None \<Rightarrow> Value (kv_p (kvs ! j))
               | Some v \<Rightarrow> \<lparr> vs_given = True, vs_value = v \<rparr>) [0 ..< length kvs]"

lemma last_value_append:
  "last_value j (ms @ [(k, t, v)]) = (if k = j then Some v else last_value j ms)"
  by (induction ms) (auto split: option.splits)

lemma foldl_store_length: "length (foldl store out ms) = length out"
  by (induction ms arbitrary: out) (simp_all add: store_length)

lemma store_nth:
  "j < length out \<Longrightarrow>
   store out (k, t, v) ! j = (if k = j then \<lparr> vs_given = True, vs_value = v \<rparr> else out ! j)"
  by (simp add: store_def nth_list_update)

lemma foldl_store_nth:
  "j < length out \<Longrightarrow>
   foldl store out ms ! j
     = (case last_value j ms of None \<Rightarrow> out ! j | Some v \<Rightarrow> \<lparr> vs_given = True, vs_value = v \<rparr>)"
proof (induction ms arbitrary: out)
  case Nil
  show ?case by simp
next
  case (Cons m ms)
  obtain k t v where m: "m = (k, t, v)" by (cases m)
  from Cons.prems have l: "j < length (store out m)" by (simp add: store_length)
  have "foldl store out (m # ms) ! j = foldl store (store out m) ms ! j" by simp
  also have "\<dots> = (case last_value j ms of None \<Rightarrow> store out m ! j
                      | Some v \<Rightarrow> \<lparr> vs_given = True, vs_value = v \<rparr>)"
    by (rule Cons.IH[OF l])
  also have "\<dots> = (case last_value j (m # ms) of None \<Rightarrow> out ! j
                      | Some v \<Rightarrow> \<lparr> vs_given = True, vs_value = v \<rparr>)"
    using Cons.prems by (simp add: m store_nth split: option.splits)
  finally show ?case .
qed

lemma foldl_store_decoded:
  "foldl store (map (\<lambda>f. Value (kv_p f)) kvs) ms = decoded kvs ms"
proof (rule nth_equalityI)
  show "length (foldl store (map (\<lambda>f. Value (kv_p f)) kvs) ms) = length (decoded kvs ms)"
    by (simp add: foldl_store_length decoded_def)
next
  fix j assume "j < length (foldl store (map (\<lambda>f. Value (kv_p f)) kvs) ms)"
  then have j: "j < length kvs" by (simp add: foldl_store_length)
  then show "foldl store (map (\<lambda>f. Value (kv_p f)) kvs) ms ! j = decoded kvs ms ! j"
    by (simp add: foldl_store_nth decoded_def split: option.splits)
qed

lemma decoded_given:
  "j < length kvs \<Longrightarrow> vs_given (decoded kvs ms ! j) = (last_value j ms \<noteq> None)"
  by (simp add: decoded_def Value_def split: option.splits)

lemma finish_decoded:
  assumes "list_all (\<lambda>j. Required (kvs ! j) \<longrightarrow> last_value j ms \<noteq> None) [0 ..< length kvs]"
  shows "finish n ((ParseObject_init kvs)\<lparr>po_state := PreKey\<rparr>) (decoded kvs ms) pool
       = Inr (Some n, (ParseObject_init kvs)\<lparr>po_out := decoded kvs ms\<rparr>, pool)"
proof -
  have "\<not> list_ex (\<lambda>k. Required (kvs ! k) \<and> \<not> vs_given (decoded kvs ms ! k))
          [0 ..< length (decoded kvs ms)]"
  proof
    assume "list_ex (\<lambda>k. Required (kvs ! k) \<and> \<not> vs_given (decoded kvs ms ! k))
          [0 ..< length (decoded kvs ms)]"
    then obtain k where k: "k < length kvs" "Required (kvs ! k)" "\<not> vs_given (decoded kvs ms ! k)"
      by (auto simp: list_ex_iff decoded_def)
    from assms k(1,2) have "last_value k ms \<noteq> None" by (simp add: list_all_iff)
    with k(1,3) show False by (simp add: decoded_given)
  qed
  then show ?thesis by (simp add: finish_def ParseObject_init_def)
qed

lemma object_scan_members:
  assumes "ready pool" "list_all (member_ok kvs) ms"
    and "list_all (\<lambda>j. Required (kvs ! j) \<longrightarrow> last_value j ms \<noteq> None) [0 ..< length kvs]"
  shows "\<exists>pool'. ParseObject_Scan (object_text kvs ms) (ParseObject_init kvs) pool
           = Inr (Some (length (object_text kvs ms)),
                  (ParseObject_init kvs)\<lparr>po_out := decoded kvs ms\<rparr>, pool')"
proof -
  define ob where "ob = (ParseObject_init kvs)\<lparr>po_state := PreKey\<rparr>"
  have x: "object_text kvs ms = ''{'' @ members_text kvs ms" by (simp add: object_text_def)
  have "\<exists>pool'. ParseObject_loop (object_text kvs ms) (length ''{'') ob pool
               = finish (length (object_text kvs ms)) ob (foldl store (po_out ob) ms) pool'"
    by (rule loop_members[OF _ _ _ assms(2,1) x]) (simp_all add: ob_def ParseObject_init_def)
  then obtain pool' where "ParseObject_loop (object_text kvs ms) 1 ob pool
               = finish (length (object_text kvs ms)) ob (decoded kvs ms) pool'"
    by (auto simp: ob_def ParseObject_init_def foldl_store_decoded)
  moreover have "ParseObject_Scan (object_text kvs ms) (ParseObject_init kvs) pool
      = ParseObject_loop (object_text kvs ms) 1 ob pool"
    by (simp add: ParseObject_Scan_def ob_def object_text_def deref_def ParseObject_init_def)
  ultimately show ?thesis using finish_decoded[OF assms(3)] unfolding ob_def by simp
qed

text \<open>
  Value texts that scan as their value: a run of digits for a float field, a quoted plain
  string for a string field, and below the arrays and nested arrays of such floats.
\<close>

lemma takeWhile_run: "list_all P ds \<Longrightarrow> \<not> P c \<Longrightarrow> takeWhile P (ds @ c # rest) = ds"
  by (induction ds) simp_all

lemma isdigit_facts:
  assumes "isdigit c"
  shows "\<not> isspace c" "c \<noteq> CHR ''-''" "c \<noteq> CHR ''+''" "c \<noteq> CHR ''x''" "c \<noteq> CHR ''X''"
    "numch c" "\<not> is_ws c"
  using assms
  by (auto simp: isdigit_def isspace_def inrange_def code_of_def numch_def is_ws_def)

lemma strtof_digits:
  assumes ne: "ds \<noteq> []" and dg: "list_all isdigit ds"
    and c: "c = CHR '','' \<or> c = CHR ''}'' \<or> c = CHR '']''"
  shows "strtof (ds @ c # rest) = (Finite (of_nat (digits_val ds)), length ds)"
proof -
  define xs where "xs = ds @ c # rest"
  obtain d ds' where d: "ds = d # ds'" using ne by (cases ds) auto
  with dg have hd: "isdigit d" and dg': "list_all isdigit ds'" by simp_all
  note hf = isdigit_facts[OF hd]
  from c have sf: "\<not> isdigit c" "c \<noteq> CHR ''.''" "c \<noteq> CHR ''e''" "c \<noteq> CHR ''E''"
    "c \<noteq> CHR ''x''" "c \<noteq> CHR ''X''"
    by (auto simp: isdigit_def inrange_def code_of_def)
  have w: "takeWhile isspace xs = []" by (simp add: xs_def d hf)
  have sl: "sign_len xs = 0" "\<not> sign_neg xs" by (simp_all add: xs_def d sign_len_def sign_neg_def hf)
  have x1: "xs ! 1 \<noteq> CHR ''x''" "xs ! 1 \<noteq> CHR ''X''"
  proof -
    have "xs ! 1 = c \<or> isdigit (xs ! 1)"
      by (cases ds') (use dg' in \<open>simp_all add: xs_def d\<close>)
    then show "xs ! 1 \<noteq> CHR ''x''" "xs ! 1 \<noteq> CHR ''X''"
      using sf isdigit_facts(4,5) by blast+
  qed
  then have hb: "hex_body xs = None" by (simp add: hex_body_def)
  have ip: "takeWhile isdigit xs = ds" unfolding xs_def by (rule takeWhile_run[OF dg sf(1)])
  have dr: "drop (length ds) xs = c # rest" by (simp add: xs_def)
  have ep: "exponent_part CHR ''e'' CHR ''E'' (c # rest) = (0, 0)"
    by (simp add: exponent_part_def sf)
  have db: "decimal_body xs = Some (of_nat (digits_val ds), length ds)"
    using ne by (simp add: decimal_body_def ip dr sf ep scale_def)
  show ?thesis
    unfolding xs_def[symmetric] by (simp add: strtof_def w sl hb db)
qed

definition digits :: "string \<Rightarrow> bool" where
  "digits ds = (ds \<noteq> [] \<and> list_all isdigit ds)"

definition float_of :: "string \<Rightarrow> jvalue" where
  "float_of ds = JFloat (Finite (of_nat (digits_val ds)))"

lemma ParseFloat_Scan_digits:
  assumes d: "digits ds" and c: "c = CHR '','' \<or> c = CHR ''}'' \<or> c = CHR '']''"
    and b: "buffer pool = []"
  shows "ParseFloat_Scan (ds @ c # rest) pool
       = Inr (Some (length ds),
              pool\<lparr>float_value := Finite (of_nat (digits_val ds)), float_finished := True,
                   buffer := []\<rparr>)"
proof -
  from d have ne: "ds \<noteq> []" and dg: "list_all isdigit ds" by (simp_all add: digits_def)
  from dg have "list_all numch ds" by (induction ds) (simp_all add: isdigit_facts(6))
  then have "numrun ds = length ds" by (simp add: numrun_all)
  with ne b strtof_digits[OF ne dg c, of rest] show ?thesis
    by (simp add: ParseFloat_Scan_def)
qed

lemma ready_values: "ready pool \<Longrightarrow> ready (pool\<lparr>float_value := v\<rparr>)"
  "ready pool \<Longrightarrow> ready (pool_swap P old pool)"
  by (auto simp: ready_def pool_swap_def split: leaf.splits jvalue.splits)

lemma scans_as_digits:
  assumes d: "digits ds" and kv: "kv_p kv = PoolParser LFloat" "\<not> kv_given kv"
  shows "scans_as kv ds (float_of ds)"
  unfolding scans_as_def
proof (intro conjI allI impI)
  from d show ne: "ds \<noteq> []" by (simp add: digits_def)
  from d have "isdigit (hd ds)" by (cases ds) (simp_all add: digits_def)
  then show "\<not> is_ws (hd ds)" by (rule isdigit_facts(7))
next
  fix pool vs c rest
  assume a: "ready pool \<and> (c = CHR '','' \<or> c = CHR ''}'')"
  then have b: "buffer pool = []" and c: "c = CHR '','' \<or> c = CHR ''}'' \<or> c = CHR '']''"
    by (auto simp: ready_def)
  define pool1 where "pool1 = pool\<lparr>float_value := Finite (of_nat (digits_val ds)),
      float_finished := True, buffer := []\<rparr>"
  have r1: "ready pool1" using a by (simp add: pool1_def ready_def)
  have s: "Scanner_Scan kv (ds @ c # rest) pool = Inr (Some (length ds), kv\<lparr>kv_given := True\<rparr>, pool1)"
    using ParseFloat_Scan_digits[OF d c b, of rest]
    by (simp add: Scanner_Scan_def kv leaf_Scan_def pool1_def)
  have w: "KeyValue_Swap (kv\<lparr>kv_given := True\<rparr>) vs pool1
      = Inr (kv, vs\<lparr>vs_value := float_of ds, vs_given := True\<rparr>,
             pool_swap LFloat (vs_value vs) pool1)"
    using kv by (simp add: KeyValue_Swap_def leaf_value_def pool1_def float_of_def)
  from s w ready_values(2)[OF r1]
  show "\<exists>kv1 pool1 pool2.
          Scanner_Scan kv (ds @ c # rest) pool = Inr (Some (length ds), kv1, pool1) \<and>
          KeyValue_Swap kv1 vs pool1 = Inr (kv, vs\<lparr>vs_value := float_of ds, vs_given := True\<rparr>, pool2) \<and>
          ready pool2"
    by blast
qed

lemma scans_as_plain_string:
  assumes pl: "plain s" and kv: "kv_p kv = PoolParser LString" "\<not> kv_given kv"
  shows "scans_as kv (CHR 0x22 # s @ [CHR 0x22]) (JString s)"
  unfolding scans_as_def
proof (intro conjI allI impI)
  show "CHR 0x22 # s @ [CHR 0x22] \<noteq> []" by simp
  show "\<not> is_ws (hd (CHR 0x22 # s @ [CHR 0x22]))" by (simp add: is_ws_def)
next
  fix pool vs c rest
  assume a: "ready pool \<and> (c = CHR '','' \<or> c = CHR ''}'')"
  then have rd: "ready pool" by simp
  define pool1 where "pool1 = pool\<lparr>string_value := s\<rparr>"
  have r1: "ready pool1" unfolding pool1_def by (rule ready_string_value[OF rd])
  have s: "Scanner_Scan kv ((CHR 0x22 # s @ [CHR 0x22]) @ c # rest) pool
         = Inr (Some (length (CHR 0x22 # s @ [CHR 0x22])), kv\<lparr>kv_given := True\<rparr>, pool1)"
    using ParseString_Scan_plain[OF pl rd, of "c # rest"]
    by (simp add: Scanner_Scan_def kv leaf_Scan_def pool1_def)
  have w: "KeyValue_Swap (kv\<lparr>kv_given := True\<rparr>) vs pool1
      = Inr (kv, vs\<lparr>vs_value := JString s, vs_given := True\<rparr>,
             pool_swap LString (vs_value vs) pool1)"
    using kv by (simp add: KeyValue_Swap_def leaf_value_def pool1_def)
  from s w ready_values(2)[OF r1]
  show "\<exists>kv1 pool1 pool2.
          Scanner_Scan kv ((CHR 0x22 # s @ [CHR 0x22]) @ c # rest) pool
            = Inr (Some (length (CHR 0x22 # s @ [CHR 0x22])), kv1, pool1) \<and>
          KeyValue_Swap kv1 vs pool1 = Inr (kv, vs\<lparr>vs_value := JString s, vs_given := True\<rparr>, pool2) \<and>
          ready pool2"
    by blast
qed

fun tail_text :: "string list \<Rightarrow> string" where
  "tail_text [] = '']''"
| "tail_text (d # ds) = CHR '','' # d @ tail_text ds"

definition array_text :: "string list \<Rightarrow> string" where
  "array_text dss = CHR ''['' # (case dss of [] \<Rightarrow> '']'' | d # ds \<Rightarrow> d @ tail_text ds)"

lemma tail_text_hd: "\<exists>c ys. tail_text ds = c # ys \<and> (c = CHR '','' \<or> c = CHR '']'')"
  by (cases ds) simp_all

lemma ParseArray_item_digits:
  assumes d: "digits d" and c: "c = CHR '','' \<or> c = CHR '']''" and x: "drop b xs = d @ c # ys"
    and r: "ready pool"
  shows "\<exists>pool'. ready pool' \<and> ParseArray_item LFloat xs b (a, pool)
       = Continue (b + length d) (a\<lparr>pa_out := pa_out a @ [float_of d], pa_had_comma := False\<rparr>, pool')"
proof -
  from d have ne: "d \<noteq> []" and dg: "list_all isdigit d" by (simp_all add: digits_def)
  then have "isdigit (hd d)" by (cases d) simp_all
  then have nw: "\<not> is_ws (hd (drop b xs))" using ne x by (simp add: isdigit_facts(7))
  define pool1 where "pool1 = pool\<lparr>ws_finished := True, buffer := []\<rparr>"
  from x ne have "drop b xs \<noteq> []" by simp
  from SkipWhitespace_Scan_no_progress[OF this nw, of pool]
  have sk: "SkipWhitespace_Scan (drop b xs) pool = (Some 0, pool1)" by (simp add: pool1_def)
  from c have c3: "c = CHR '','' \<or> c = CHR ''}'' \<or> c = CHR '']''" by blast
  define pool2 where "pool2 = pool1\<lparr>float_value := Finite (of_nat (digits_val d)),
      float_finished := True, buffer := []\<rparr>"
  have fs: "ParseFloat_Scan (d @ c # ys) pool1 = Inr (Some (length d), pool2)"
    unfolding pool2_def by (rule ParseFloat_Scan_digits[OF d c3]) (simp add: pool1_def)
  have r2: "ready pool2" using r by (simp add: pool2_def pool1_def ready_def)
  have "ParseArray_item LFloat xs b (a, pool)
       = Continue (b + length d) (a\<lparr>pa_out := pa_out a @ [float_of d], pa_had_comma := False\<rparr>, pool2)"
    using sk fs x
    by (simp add: ParseArray_item_def leaf_Scan_def leaf_value_def float_of_def pool2_def)
  with r2 show ?thesis by blast
qed

lemma ParseArray_loop_tail:
  "pa_out a \<noteq> [] \<Longrightarrow> \<not> pa_had_comma a \<Longrightarrow> list_all digits ds \<Longrightarrow> ready pool
   \<Longrightarrow> xs = pre @ tail_text ds @ rest
   \<Longrightarrow> \<exists>pool'. ready pool' \<and> ParseArray_loop LFloat xs (length pre) a pool
         = Inr (Some (length pre + length (tail_text ds)),
                a\<lparr>pa_out := pa_out a @ map float_of ds, pa_began := False, pa_finished := True\<rparr>,
                pool')"
proof (induction ds arbitrary: a pool pre)
  case Nil
  from Nil(5) have d: "drop (length pre) xs = CHR '']'' # rest" by simp
  from Nil(5) have l: "length pre < length xs" by simp
  from drop_deref[OF d] have de: "deref xs (length pre) = CHR '']''" by simp
  have sk: "SkipWhitespace_Scan (drop (length pre) xs) pool
          = (Some 0, pool\<lparr>ws_finished := True, buffer := []\<rparr>)"
    by (rule SkipWhitespace_Scan_no_progress) (simp_all add: d is_ws_def)
  have "ParseArray_body LFloat xs (length pre) a pool
      = Return (Some (length pre + 1)) (a\<lparr>pa_began := False, pa_finished := True\<rparr>,
                                        pool\<lparr>ws_finished := True, buffer := []\<rparr>)"
    using Nil(1,2) de sk by (simp add: ParseArray_body_def ParseArray_separator_def thenDo_def)
  then have "ParseArray_loop LFloat xs (length pre) a pool
      = Inr (Some (length pre + 1), a\<lparr>pa_began := False, pa_finished := True\<rparr>,
             pool\<lparr>ws_finished := True, buffer := []\<rparr>)"
    using l by (simp add: ParseArray_loop.simps[of _ xs "length pre"])
  with ready_skip[OF Nil(4)] show ?case by auto
next
  case (Cons d ds)
  from Cons.prems(3) have dd: "digits d" and dds: "list_all digits ds" by simp_all
  obtain c ys where t: "tail_text ds = c # ys" and c: "c = CHR '','' \<or> c = CHR '']''"
    using tail_text_hd by blast
  from Cons.prems(5) have d0: "drop (length pre) xs = CHR '','' # d @ tail_text ds @ rest" by simp
  from Cons.prems(5) have l: "length pre < length xs" by simp
  from drop_deref[OF d0] have de: "deref xs (length pre) = CHR '',''" by simp
  have "xs = pre @ '','' @ (d @ tail_text ds @ rest)" by (simp add: Cons.prems(5))
  from drop_mid[OF this] have d1: "drop (length pre + 1) xs = d @ c # (ys @ rest)" by (simp add: t)
  from ParseArray_item_digits[OF dd c d1 Cons.prems(4), of "a\<lparr>pa_had_comma := True\<rparr>"]
  obtain pool1 where r1: "ready pool1"
    and it: "ParseArray_item LFloat xs (length pre + 1) (a\<lparr>pa_had_comma := True\<rparr>, pool)
       = Continue (length pre + 1 + length d)
           (a\<lparr>pa_out := pa_out a @ [float_of d], pa_had_comma := False\<rparr>, pool1)"
    by auto
  define a1 where "a1 = a\<lparr>pa_out := pa_out a @ [float_of d], pa_had_comma := False\<rparr>"
  have hc: "a\<lparr>pa_had_comma := False\<rparr> = a" using Cons.prems(2) by (cases a) simp
  have a1': "a1 = a\<lparr>pa_out := pa_out a @ [float_of d]\<rparr>"
    unfolding a1_def using Cons.prems(2) by (cases a) simp
  have "ParseArray_body LFloat xs (length pre) a pool = Continue (length pre + 1 + length d) (a1, pool1)"
    using Cons.prems(1,2) de it
    by (simp add: ParseArray_body_def ParseArray_separator_def thenDo_def a1_def)
  then have s: "ParseArray_loop LFloat xs (length pre) a pool
      = ParseArray_loop LFloat xs (length pre + 1 + length d) a1 pool1"
    using l by (simp add: ParseArray_loop.simps[of _ xs "length pre"])
  have x2: "xs = (pre @ '','' @ d) @ tail_text ds @ rest" by (simp add: Cons.prems(5))
  have "\<exists>pool'. ready pool' \<and> ParseArray_loop LFloat xs (length (pre @ '','' @ d)) a1 pool1
         = Inr (Some (length (pre @ '','' @ d) + length (tail_text ds)),
                a1\<lparr>pa_out := pa_out a1 @ map float_of ds, pa_began := False, pa_finished := True\<rparr>,
                pool')"
    by (rule Cons.IH[OF _ _ dds r1 x2]) (simp_all add: a1_def)
  then obtain pool' where r': "ready pool'"
    and "ParseArray_loop LFloat xs (length pre + 1 + length d) a1 pool1
         = Inr (Some (length pre + length (tail_text (d # ds))),
                a\<lparr>pa_out := pa_out a @ map float_of (d # ds), pa_began := False,
                   pa_finished := True\<rparr>, pool')"
    by (auto simp: a1')
  with s show ?case by auto
qed

lemma ParseArray_Scan_digits:
  assumes ds: "list_all digits dss" and r: "ready pool"
  shows "\<exists>pool'. ready pool' \<and> ParseArray_Scan LFloat (array_text dss @ rest) ParseArray_init pool
       = Inr (Some (length (array_text dss)), ParseArray_init\<lparr>pa_out := map float_of dss\<rparr>, pool')"
proof -
  define xs where "xs = array_text dss @ rest"
  define a0 where "a0 = ParseArray_init\<lparr>pa_began := True, pa_had_comma := False\<rparr>"
  from r have ff: "leaf_Finished LFloat pool" by (simp add: leaf_Finished_def ready_def)
  have d0: "deref xs 0 = CHR ''[''" by (simp add: xs_def array_text_def deref_def)
  from ff d0 have sc: "ParseArray_Scan LFloat xs ParseArray_init pool = ParseArray_loop LFloat xs 1 a0 pool"
    by (simp add: ParseArray_Scan_def ParseArray_init_def a0_def)
  show ?thesis
  proof (cases dss)
    case Nil
    then have x: "xs = ''['' @ '']'' @ rest" by (simp add: xs_def array_text_def)
    then have d: "drop 1 xs = CHR '']'' # rest" by simp
    from x have l: "1 < length xs" by simp
    from drop_deref[OF d] have de: "deref xs 1 = CHR '']''" by simp
    have sk: "SkipWhitespace_Scan (drop 1 xs) pool = (Some 0, pool\<lparr>ws_finished := True, buffer := []\<rparr>)"
      by (rule SkipWhitespace_Scan_no_progress) (use d in \<open>simp_all add: is_ws_def\<close>)
    have "ParseArray_body LFloat xs 1 a0 pool
        = Return (Some 2) (a0\<lparr>pa_began := False, pa_finished := True\<rparr>,
                           pool\<lparr>ws_finished := True, buffer := []\<rparr>)"
      using de sk
      by (simp add: ParseArray_body_def ParseArray_separator_def thenDo_def a0_def ParseArray_init_def)
    then have "ParseArray_loop LFloat xs 1 a0 pool
        = Inr (Some 2, ParseArray_init, pool\<lparr>ws_finished := True, buffer := []\<rparr>)"
      using l by (simp add: ParseArray_loop.simps[of _ xs "Suc 0"] a0_def ParseArray_init_def)
    with sc ready_skip[OF r] Nil show ?thesis
      by (auto simp: xs_def array_text_def ParseArray_init_def)
  next
    case (Cons d ds)
    from ds Cons have dd: "digits d" and dds: "list_all digits ds" by simp_all
    obtain c ys where t: "tail_text ds = c # ys" and c: "c = CHR '','' \<or> c = CHR '']''"
      using tail_text_hd by blast
    have x: "xs = ''['' @ (d @ tail_text ds @ rest)" by (simp add: xs_def array_text_def Cons)
    then have d1: "drop 1 xs = d @ c # (ys @ rest)" by (simp add: t)
    from x have l: "1 < length xs" using dd by (simp add: digits_def)
    from dd obtain e es where e: "d = e # es" and ed: "isdigit e"
      by (cases d) (simp_all add: digits_def)
    from d1 have dy: "drop 1 xs = e # (es @ c # (ys @ rest))" by (simp add: e)
    from ed have e3: "\<not> is_ws e" "e \<noteq> CHR '']''"
      by (auto simp: isdigit_def inrange_def code_of_def is_ws_def)
    from dy e3 have nw: "drop 1 xs \<noteq> []" "\<not> is_ws (hd (drop 1 xs))" by simp_all
    from drop_deref[OF dy] e3 have de: "deref xs 1 \<noteq> CHR '']''" by simp
    define pool0 where "pool0 = pool\<lparr>ws_finished := True, buffer := []\<rparr>"
    have sk: "SkipWhitespace_Scan (drop 1 xs) pool = (Some 0, pool0)"
      unfolding pool0_def by (rule SkipWhitespace_Scan_no_progress[OF nw(1,2)])
    have r0: "ready pool0" unfolding pool0_def by (rule ready_skip[OF r])
    from ParseArray_item_digits[OF dd c d1 r0, of a0]
    obtain pool1 where r1: "ready pool1"
      and it: "ParseArray_item LFloat xs 1 (a0, pool0)
         = Continue (1 + length d) (a0\<lparr>pa_out := pa_out a0 @ [float_of d], pa_had_comma := False\<rparr>, pool1)"
      by auto
    define a1 where "a1 = a0\<lparr>pa_out := pa_out a0 @ [float_of d], pa_had_comma := False\<rparr>"
    have "ParseArray_body LFloat xs 1 a0 pool = Continue (1 + length d) (a1, pool1)"
      using de sk it
      by (simp add: ParseArray_body_def ParseArray_separator_def thenDo_def a0_def a1_def
            ParseArray_init_def)
    then have s: "ParseArray_loop LFloat xs 1 a0 pool = ParseArray_loop LFloat xs (1 + length d) a1 pool1"
      using l by (simp add: ParseArray_loop.simps[of _ xs "Suc 0"])
    have x2: "xs = (''['' @ d) @ tail_text ds @ rest" by (simp add: x)
    have "\<exists>pool'. ready pool' \<and> ParseArray_loop LFloat xs (length (''['' @ d)) a1 pool1
         = Inr (Some (length (''['' @ d) + length (tail_text ds)),
                a1\<lparr>pa_out := pa_out a1 @ map float_of ds, pa_began := False, pa_finished := True\<rparr>,
                pool')"
      by (rule ParseArray_loop_tail[OF _ _ dds r1 x2]) (simp_all add: a1_def)
    then obtain pool' where r': "ready pool'"
      and "ParseArray_loop LFloat xs (1 + length d) a1 pool1
         = Inr (Some (length (array_text dss)), ParseArray_init\<lparr>pa_out := map float_of dss\<rparr>, pool')"
      by (auto simp: a1_def a0_def ParseArray_init_def array_text_def Cons)
    with s sc show ?thesis unfolding xs_def by auto
  qed
qed

lemma scans_as_float_array:
  assumes ds: "list_all digits dss"
    and kv: "kv_p kv = ArrayParser LFloat ParseArray_init" "\<not> kv_given kv"
  shows "scans_as kv (array_text dss) (JArray (map float_of dss))"
  unfolding scans_as_def
proof (intro conjI allI impI)
  show "array_text dss \<noteq> []" by (simp add: array_text_def)
  show "\<not> is_ws (hd (array_text dss))" by (simp add: array_text_def is_ws_def)
next
  fix pool vs c rest
  assume a: "ready pool \<and> (c = CHR '','' \<or> c = CHR ''}'')"
  then have r: "ready pool" by simp
  from ParseArray_Scan_digits[OF ds r, of "c # rest"] obtain pool1 where r1: "ready pool1"
    and sc: "ParseArray_Scan LFloat (array_text dss @ c # rest) ParseArray_init pool
       = Inr (Some (length (array_text dss)), ParseArray_init\<lparr>pa_out := map float_of dss\<rparr>, pool1)"
    by blast
  define kv1 where "kv1 = kv\<lparr>kv_given := True,
      kv_p := ArrayParser LFloat (ParseArray_init\<lparr>pa_out := map float_of dss\<rparr>)\<rparr>"
  have s: "Scanner_Scan kv (array_text dss @ c # rest) pool
         = Inr (Some (length (array_text dss)), kv1, pool1)"
    using sc by (simp add: Scanner_Scan_def kv kv1_def)
  have w: "KeyValue_Swap kv1 vs pool1
      = Inr (kv, vs\<lparr>vs_value := JArray (map float_of dss), vs_given := True\<rparr>, pool1)"
    using kv by (simp add: KeyValue_Swap_def kv1_def ParseArray_Swap_def ParseArray_init_def)
  from s w r1
  show "\<exists>kv1 pool1 pool2.
          Scanner_Scan kv (array_text dss @ c # rest) pool
            = Inr (Some (length (array_text dss)), kv1, pool1) \<and>
          KeyValue_Swap kv1 vs pool1
            = Inr (kv, vs\<lparr>vs_value := JArray (map float_of dss), vs_given := True\<rparr>, pool2) \<and>
          ready pool2"
    by blast
qed

definition array_of :: "string list \<Rightarrow> jvalue" where
  "array_of r = JArray (map float_of r)"

fun nested_tail :: "string list list \<Rightarrow> string" where
  "nested_tail [] = '']''"
| "nested_tail (r # rs) = CHR '','' # array_text r @ nested_tail rs"

definition nested_text :: "string list list \<Rightarrow> string" where
  "nested_text rss = CHR ''['' # (case rss of [] \<Rightarrow> '']'' | r # rs \<Rightarrow> array_text r @ nested_tail rs)"

lemma ParseContainerArray_item_digits:
  assumes p: "pc_p a = ParseArray_init" and r: "list_all digits r"
    and x: "drop b xs = array_text r @ ys" and rd: "ready pool"
  shows "\<exists>pool'. ready pool' \<and> ParseContainerArray_item LFloat xs b (a, pool)
       = Continue (b + length (array_text r))
           (a\<lparr>pc_p := ParseArray_init, pc_out := pc_out a @ [array_of r], pc_had_comma := False\<rparr>,
            pool')"
proof -
  from x have dy: "drop b xs = CHR ''['' # tl (array_text r) @ ys" by (simp add: array_text_def)
  define pool1 where "pool1 = pool\<lparr>ws_finished := True, buffer := []\<rparr>"
  have sk: "SkipWhitespace_Scan (drop b xs) pool = (Some 0, pool1)"
    unfolding pool1_def
    by (rule SkipWhitespace_Scan_no_progress) (use dy in \<open>simp_all add: is_ws_def\<close>)
  have r1: "ready pool1" unfolding pool1_def by (rule ready_skip[OF rd])
  from ParseArray_Scan_digits[OF r r1, of ys] obtain pool2 where r2: "ready pool2"
    and sc: "ParseArray_Scan LFloat (array_text r @ ys) ParseArray_init pool1
       = Inr (Some (length (array_text r)), ParseArray_init\<lparr>pa_out := map float_of r\<rparr>, pool2)"
    by blast
  have "ParseContainerArray_item LFloat xs b (a, pool)
       = Continue (b + length (array_text r))
           (a\<lparr>pc_p := ParseArray_init, pc_out := pc_out a @ [array_of r], pc_had_comma := False\<rparr>,
            pool2)"
    using sk sc x p
    by (simp add: ParseContainerArray_item_def ParseContainerArray_push_def ParseArray_Swap_def
          ParseArray_init_def array_of_def)
  with r2 show ?thesis by blast
qed

lemma ParseContainerArray_loop_tail:
  "pc_out a \<noteq> [] \<Longrightarrow> \<not> pc_had_comma a \<Longrightarrow> pc_p a = ParseArray_init
   \<Longrightarrow> list_all (list_all digits) rs \<Longrightarrow> ready pool \<Longrightarrow> xs = pre @ nested_tail rs @ rest
   \<Longrightarrow> \<exists>pool'. ready pool' \<and> ParseContainerArray_loop LFloat xs (length pre) a pool
         = Inr (Some (length pre + length (nested_tail rs)),
                a\<lparr>pc_out := pc_out a @ map array_of rs, pc_began := False, pc_finished := True\<rparr>,
                pool')"
proof (induction rs arbitrary: a pool pre)
  case Nil
  from Nil(6) have d: "drop (length pre) xs = CHR '']'' # rest" by simp
  from Nil(6) have l: "length pre < length xs" by simp
  from drop_deref[OF d] have de: "deref xs (length pre) = CHR '']''" by simp
  have sk: "SkipWhitespace_Scan (drop (length pre) xs) pool
          = (Some 0, pool\<lparr>ws_finished := True, buffer := []\<rparr>)"
    by (rule SkipWhitespace_Scan_no_progress) (simp_all add: d is_ws_def)
  have "ParseContainerArray_body LFloat xs (length pre) a pool
      = Return (Some (length pre + 1)) (a\<lparr>pc_began := False, pc_finished := True\<rparr>,
                                        pool\<lparr>ws_finished := True, buffer := []\<rparr>)"
    using Nil(1,2) de sk
    by (simp add: ParseContainerArray_body_def ParseContainerArray_separator_def thenDo_def)
  then have "ParseContainerArray_loop LFloat xs (length pre) a pool
      = Inr (Some (length pre + 1), a\<lparr>pc_began := False, pc_finished := True\<rparr>,
             pool\<lparr>ws_finished := True, buffer := []\<rparr>)"
    using l by (simp add: ParseContainerArray_loop.simps[of _ xs "length pre"])
  with ready_skip[OF Nil(5)] show ?case by auto
next
  case (Cons r rs)
  from Cons.prems(4) have dr: "list_all digits r" and drs: "list_all (list_all digits) rs" by simp_all
  from Cons.prems(6) have d0: "drop (length pre) xs = CHR '','' # array_text r @ nested_tail rs @ rest"
    by simp
  from Cons.prems(6) have l: "length pre < length xs" by simp
  from drop_deref[OF d0] have de: "deref xs (length pre) = CHR '',''" by simp
  have "xs = pre @ '','' @ (array_text r @ nested_tail rs @ rest)" by (simp add: Cons.prems(6))
  from drop_mid[OF this] have d1: "drop (length pre + 1) xs = array_text r @ (nested_tail rs @ rest)"
    by simp
  from ParseContainerArray_item_digits[OF _ dr d1 Cons.prems(5), of "a\<lparr>pc_had_comma := True\<rparr>"]
    Cons.prems(3)
  obtain pool1 where r1: "ready pool1"
    and it: "ParseContainerArray_item LFloat xs (length pre + 1) (a\<lparr>pc_had_comma := True\<rparr>, pool)
       = Continue (length pre + 1 + length (array_text r))
           (a\<lparr>pc_p := ParseArray_init, pc_out := pc_out a @ [array_of r], pc_had_comma := False\<rparr>,
            pool1)"
    by auto
  define a1 where "a1 = a\<lparr>pc_p := ParseArray_init, pc_out := pc_out a @ [array_of r],
                            pc_had_comma := False\<rparr>"
  have a1': "a1 = a\<lparr>pc_out := pc_out a @ [array_of r]\<rparr>"
    unfolding a1_def using Cons.prems(2,3) by (cases a) simp
  have "ParseContainerArray_body LFloat xs (length pre) a pool
      = Continue (length pre + 1 + length (array_text r)) (a1, pool1)"
    using Cons.prems(1,2) de it
    by (simp add: ParseContainerArray_body_def ParseContainerArray_separator_def thenDo_def a1_def)
  then have s: "ParseContainerArray_loop LFloat xs (length pre) a pool
      = ParseContainerArray_loop LFloat xs (length pre + 1 + length (array_text r)) a1 pool1"
    using l by (simp add: ParseContainerArray_loop.simps[of _ xs "length pre"])
  have x2: "xs = (pre @ '','' @ array_text r) @ nested_tail rs @ rest" by (simp add: Cons.prems(6))
  have "\<exists>pool'. ready pool' \<and>
         ParseContainerArray_loop LFloat xs (length (pre @ '','' @ array_text r)) a1 pool1
         = Inr (Some (length (pre @ '','' @ array_text r) + length (nested_tail rs)),
                a1\<lparr>pc_out := pc_out a1 @ map array_of rs, pc_began := False, pc_finished := True\<rparr>,
                pool')"
    by (rule Cons.IH[OF _ _ _ drs r1 x2]) (simp_all add: a1_def)
  then obtain pool' where r': "ready pool'"
    and "ParseContainerArray_loop LFloat xs (length pre + 1 + length (array_text r)) a1 pool1
         = Inr (Some (length pre + length (nested_tail (r # rs))),
                a\<lparr>pc_out := pc_out a @ map array_of (r # rs), pc_began := False,
                   pc_finished := True\<rparr>, pool')"
    by (auto simp: a1')
  with s show ?case by auto
qed

lemma ParseContainerArray_Scan_digits:
  assumes rs: "list_all (list_all digits) rss" and r: "ready pool"
  shows "\<exists>pool'. ready pool' \<and>
       ParseContainerArray_Scan LFloat (nested_text rss @ rest) ParseContainerArray_init pool
       = Inr (Some (length (nested_text rss)),
              ParseContainerArray_init\<lparr>pc_out := map array_of rss\<rparr>, pool')"
proof -
  define xs where "xs = nested_text rss @ rest"
  define a0 where "a0 = ParseContainerArray_init\<lparr>pc_began := True, pc_had_comma := False\<rparr>"
  have d0: "deref xs 0 = CHR ''[''" by (simp add: xs_def nested_text_def deref_def)
  from d0 have sc: "ParseContainerArray_Scan LFloat xs ParseContainerArray_init pool
      = ParseContainerArray_loop LFloat xs 1 a0 pool"
    by (simp add: ParseContainerArray_Scan_def ParseContainerArray_init_def ParseArray_init_def a0_def)
  show ?thesis
  proof (cases rss)
    case Nil
    then have x: "xs = ''['' @ '']'' @ rest" by (simp add: xs_def nested_text_def)
    then have d: "drop 1 xs = CHR '']'' # rest" by simp
    from x have l: "1 < length xs" by simp
    from drop_deref[OF d] have de: "deref xs 1 = CHR '']''" by simp
    have sk: "SkipWhitespace_Scan (drop 1 xs) pool = (Some 0, pool\<lparr>ws_finished := True, buffer := []\<rparr>)"
      by (rule SkipWhitespace_Scan_no_progress) (use d in \<open>simp_all add: is_ws_def\<close>)
    have "ParseContainerArray_body LFloat xs 1 a0 pool
        = Return (Some 2) (a0\<lparr>pc_began := False, pc_finished := True\<rparr>,
                           pool\<lparr>ws_finished := True, buffer := []\<rparr>)"
      using de sk
      by (simp add: ParseContainerArray_body_def ParseContainerArray_separator_def thenDo_def a0_def
            ParseContainerArray_init_def)
    then have "ParseContainerArray_loop LFloat xs 1 a0 pool
        = Inr (Some 2, ParseContainerArray_init, pool\<lparr>ws_finished := True, buffer := []\<rparr>)"
      using l
      by (simp add: ParseContainerArray_loop.simps[of _ xs "Suc 0"] a0_def ParseContainerArray_init_def)
    with sc ready_skip[OF r] Nil show ?thesis
      by (auto simp: xs_def nested_text_def ParseContainerArray_init_def)
  next
    case (Cons r0 rs)
    from rs Cons have dr: "list_all digits r0" and drs: "list_all (list_all digits) rs" by simp_all
    have x: "xs = ''['' @ (array_text r0 @ nested_tail rs @ rest)" by (simp add: xs_def nested_text_def Cons)
    then have d1: "drop 1 xs = array_text r0 @ (nested_tail rs @ rest)" by simp
    then have dy: "drop 1 xs = CHR ''['' # tl (array_text r0) @ nested_tail rs @ rest"
      by (simp add: array_text_def)
    from x have l: "1 < length xs" by (simp add: array_text_def)
    from drop_deref[OF dy] have de: "deref xs 1 \<noteq> CHR '']''" by simp
    define pool0 where "pool0 = pool\<lparr>ws_finished := True, buffer := []\<rparr>"
    have sk: "SkipWhitespace_Scan (drop 1 xs) pool = (Some 0, pool0)"
      unfolding pool0_def
      by (rule SkipWhitespace_Scan_no_progress) (use dy in \<open>simp_all add: is_ws_def\<close>)
    have r0: "ready pool0" unfolding pool0_def by (rule ready_skip[OF r])
    have "pc_p a0 = ParseArray_init" by (simp add: a0_def ParseContainerArray_init_def)
    from ParseContainerArray_item_digits[OF this dr d1 r0]
    obtain pool1 where r1: "ready pool1"
      and it: "ParseContainerArray_item LFloat xs 1 (a0, pool0)
         = Continue (1 + length (array_text r0))
             (a0\<lparr>pc_p := ParseArray_init, pc_out := pc_out a0 @ [array_of r0],
                 pc_had_comma := False\<rparr>, pool1)"
      by auto
    define a1 where "a1 = a0\<lparr>pc_p := ParseArray_init, pc_out := pc_out a0 @ [array_of r0],
                              pc_had_comma := False\<rparr>"
    have "ParseContainerArray_body LFloat xs 1 a0 pool = Continue (1 + length (array_text r0)) (a1, pool1)"
      using de sk it
      by (simp add: ParseContainerArray_body_def ParseContainerArray_separator_def thenDo_def a0_def
            a1_def ParseContainerArray_init_def)
    then have s: "ParseContainerArray_loop LFloat xs 1 a0 pool
        = ParseContainerArray_loop LFloat xs (1 + length (array_text r0)) a1 pool1"
      using l by (simp add: ParseContainerArray_loop.simps[of _ xs "Suc 0"])
    have x2: "xs = (''['' @ array_text r0) @ nested_tail rs @ rest" by (simp add: x)
    have "\<exists>pool'. ready pool' \<and>
           ParseContainerArray_loop LFloat xs (length (''['' @ array_text r0)) a1 pool1
         = Inr (Some (length (''['' @ array_text r0) + length (nested_tail rs)),
                a1\<lparr>pc_out := pc_out a1 @ map array_of rs, pc_began := False, pc_finished := True\<rparr>,
                pool')"
      by (rule ParseContainerArray_loop_tail[OF _ _ _ drs r1 x2])
         (simp_all add: a1_def a0_def ParseContainerArray_init_def)
    then obtain pool' where r': "ready pool'"
      and "ParseContainerArray_loop LFloat xs (1 + length (array_text r0)) a1 pool1
         = Inr (Some (length (nested_text rss)),
                ParseContainerArray_init\<lparr>pc_out := map array_of rss\<rparr>, pool')"
      by (auto simp: a1_def a0_def ParseContainerArray_init_def nested_text_def Cons)
    with s sc show ?thesis unfolding xs_def by auto
  qed
qed

lemma scans_as_nested_array:
  assumes rs: "list_all (list_all digits) rss"
    and kv: "kv_p kv = ContainerArrayParser LFloat ParseContainerArray_init" "\<not> kv_given kv"
  shows "scans_as kv (nested_text rss) (JArray (map array_of rss))"
  unfolding scans_as_def
proof (intro conjI allI impI)
  show "nested_text rss \<noteq> []" by (simp add: nested_text_def)
  show "\<not> is_ws (hd (nested_text rss))" by (simp add: nested_text_def is_ws_def)
next
  fix pool vs c rest
  assume a: "ready pool \<and> (c = CHR '','' \<or> c = CHR ''}'')"
  then have r: "ready pool" by simp
  from ParseContainerArray_Scan_digits[OF rs r, of "c # rest"] obtain pool1 where r1: "ready pool1"
    and sc: "ParseContainerArray_Scan LFloat (nested_text rss @ c # rest) ParseContainerArray_init pool
       = Inr (Some (length (nested_text rss)),
              ParseContainerArray_init\<lparr>pc_out := map array_of rss\<rparr>, pool1)"
    by blast
  define kv1 where "kv1 = kv\<lparr>kv_given := True,
      kv_p := ContainerArrayParser LFloat (ParseContainerArray_init\<lparr>pc_out := map array_of rss\<rparr>)\<rparr>"
  have s: "Scanner_Scan kv (nested_text rss @ c # rest) pool
         = Inr (Some (length (nested_text rss)), kv1, pool1)"
    using sc by (simp add: Scanner_Scan_def kv kv1_def)
  have w: "KeyValue_Swap kv1 vs pool1
      = Inr (kv, vs\<lparr>vs_value := JArray (map array_of rss), vs_given := True\<rparr>, pool1)"
    using kv
    by (simp add: KeyValue_Swap_def kv1_def ParseContainerArray_Swap_def ParseContainerArray_init_def)
  from s w r1
  show "\<exists>kv1 pool1 pool2.
          Scanner_Scan kv (nested_text rss @ c # rest) pool
            = Inr (Some (length (nested_text rss)), kv1, pool1) \<and>
          KeyValue_Swap kv1 vs pool1
            = Inr (kv, vs\<lparr>vs_value := JArray (map array_of rss), vs_given := True\<rparr>, pool2) \<and>
          ready pool2"
    by blast
qed

text \<open>
  A schema with a float, a string, an array and a required nested-array field, and an object
  in which each of the four keys occurs twice.
\<close>

definition example_schema :: "ScanningKeyValue list" where
  "example_schema =
     [KeyValue ''a'' LFloat, KeyValue ''s'' LString,
      KeyContainerValue ''k'' (ArrayParser LFloat ParseArray_init),
      RequiredKeyContainerValue ''n'' (ContainerArrayParser LFloat ParseContainerArray_init)]"

definition example_members :: "(nat \<times> string \<times> jvalue) list" where
  "example_members =
     [(0, ''1'', JFloat (Finite 1)),
      (2, ''[1]'', JArray [JFloat (Finite 1)]),
      (1, [CHR 0x22] @ ''x'' @ [CHR 0x22], JString ''x''),
      (0, ''3'', JFloat (Finite 3)),
      (3, ''[[1]]'', JArray [JArray [JFloat (Finite 1)]]),
      (2, ''[2,3]'', JArray [JFloat (Finite 2), JFloat (Finite 3)]),
      (1, [CHR 0x22] @ ''yz'' @ [CHR 0x22], JString ''yz''),
      (3, ''[[4],[5]]'', JArray [JArray [JFloat (Finite 4)], JArray [JFloat (Finite 5)]])]"

text \<open>
  C8: for every schema and every list of members, with any key repeated any number of times,
  \<open>ParseObject::Scan\<close> on the object text completes at its end with no error and the record
  holds, in the slot of each field, the value of the last member with that field's key. The
  field of a member is the first one whose key matches (\<open>setActivating_first_match\<close>), the
  required fields are assumed to occur, and the value texts are assumed to scan as their
  values (\<open>scans_as_digits\<close>, \<open>scans_as_plain_string\<close>, \<open>scans_as_float_array\<close> and
  \<open>scans_as_nested_array\<close> give such texts for the four kinds of field). The second part says
  that \<open>last_value\<close> is the value of the last occurrence. The third is the scan of the example
  object, with the pool it leaves.
\<close>

theorem C8_repeated_key_last_wins:
  "(ready pool \<and> list_all (member_ok kvs) ms
      \<and> list_all (\<lambda>j. Required (kvs ! j) \<longrightarrow> last_value j ms \<noteq> None) [0 ..< length kvs]
    \<longrightarrow> (\<exists>pool'. ParseObject_Scan (object_text kvs ms) (ParseObject_init kvs) pool
                  = Inr (Some (length (object_text kvs ms)),
                         (ParseObject_init kvs)\<lparr>po_out := decoded kvs ms\<rparr>, pool')))
   \<and> last_value j (ms @ [(k, t, v)]) = (if k = j then Some v else last_value j ms)
   \<and> ParseObject_Scan (object_text example_schema example_members)
        (ParseObject_init example_schema) ParserPool_init
     = Inr (Some 72,
            (ParseObject_init example_schema)
              \<lparr>po_out :=
                 [\<lparr>vs_given = True, vs_value = JFloat (Finite 3)\<rparr>,
                  \<lparr>vs_given = True, vs_value = JString ''yz''\<rparr>,
                  \<lparr>vs_given = True, vs_value = JArray [JFloat (Finite 2), JFloat (Finite 3)]\<rparr>,
                  \<lparr>vs_given = True,
                   vs_value = JArray [JArray [JFloat (Finite 4)], JArray [JFloat (Finite 5)]]\<rparr>]\<rparr>,
            ParserPool_init\<lparr>float_value := Finite 5, string_value := ''n''\<rparr>)"
proof (intro conjI impI)
  assume "ready pool \<and> list_all (member_ok kvs) ms
      \<and> list_all (\<lambda>j. Required (kvs ! j) \<longrightarrow> last_value j ms \<noteq> None) [0 ..< length kvs]"
  then show "\<exists>pool'. ParseObject_Scan (object_text kvs ms) (ParseObject_init kvs) pool
                  = Inr (Some (length (object_text kvs ms)),
                         (ParseObject_init kvs)\<lparr>po_out := decoded kvs ms\<rparr>, pool')"
    by (intro object_scan_members) simp_all
next
  show "last_value j (ms @ [(k, t, v)]) = (if k = j then Some v else last_value j ms)"
    by (rule last_value_append)
next
  show "ParseObject_Scan (object_text example_schema example_members)
        (ParseObject_init example_schema) ParserPool_init
     = Inr (Some 72,
            (ParseObject_init example_schema)
              \<lparr>po_out :=
                 [\<lparr>vs_given = True, vs_value = JFloat (Finite 3)\<rparr>,
                  \<lparr>vs_given = True, vs_value = JString ''yz''\<rparr>,
                  \<lparr>vs_given = True, vs_value = JArray [JFloat (Finite 2), JFloat (Finite 3)]\<rparr>,
                  \<lparr>vs_given = True,
                   vs_value = JArray [JArray [JFloat (Finite 4)], JArray [JFloat (Finite 5)]]\<rparr>]\<rparr>,
            ParserPool_init\<lparr>float_value := Finite 5, string_value := ''n''\<rparr>)"
    by code_simp
qed

text \<open>
  C8 at the example object: its members satisfy the conditions, its text is the JSON object
  shown, and the record holds 3, \<open>yz\<close>, the array of 2 and 3 and the nested array of 4 and 5.
\<close>

theorem C8_witness:
  "ready ParserPool_init
   \<and> list_all (member_ok example_schema) example_members
   \<and> list_all (\<lambda>j. Required (example_schema ! j) \<longrightarrow> last_value j example_members \<noteq> None)
        [0 ..< length example_schema]
   \<and> object_text example_schema example_members
      = [CHR ''{'', CHR 0x22] @ ''a'' @ [CHR 0x22] @ '':1,'' @ [CHR 0x22] @ ''k'' @ [CHR 0x22]
          @ '':[1],'' @ [CHR 0x22] @ ''s'' @ [CHR 0x22] @ '':'' @ [CHR 0x22] @ ''x'' @ [CHR 0x22]
          @ '','' @ [CHR 0x22] @ ''a'' @ [CHR 0x22] @ '':3,'' @ [CHR 0x22] @ ''n'' @ [CHR 0x22]
          @ '':[[1]],'' @ [CHR 0x22] @ ''k'' @ [CHR 0x22] @ '':[2,3],'' @ [CHR 0x22] @ ''s''
          @ [CHR 0x22] @ '':'' @ [CHR 0x22] @ ''yz'' @ [CHR 0x22] @ '','' @ [CHR 0x22] @ ''n''
          @ [CHR 0x22] @ '':[[4],[5]]}''
   \<and> decoded example_schema example_members
      = [\<lparr>vs_given = True, vs_value = JFloat (Finite 3)\<rparr>,
         \<lparr>vs_given = True, vs_value = JString ''yz''\<rparr>,
         \<lparr>vs_given = True, vs_value = JArray [JFloat (Finite 2), JFloat (Finite 3)]\<rparr>,
         \<lparr>vs_given = True,
          vs_value = JArray [JArray [JFloat (Finite 4)], JArray [JFloat (Finite 5)]]\<rparr>]
   \<and> (\<exists>pool'. ParseObject_Scan (object_text example_schema example_members)
                 (ParseObject_init example_schema) ParserPool_init
               = Inr (Some 72,
                      (ParseObject_init example_schema)
                        \<lparr>po_out := decoded example_schema example_members\<rparr>, pool'))"
proof -
  have r: "ready ParserPool_init" by code_simp
  have dg: "digits ''1''" "digits ''2''" "digits ''3''" "digits ''4''" "digits ''5''"
    by (simp_all add: digits_def isdigit_def inrange_def code_of_def)
  have fo: "float_of ''1'' = JFloat (Finite 1)" "float_of ''2'' = JFloat (Finite 2)"
    "float_of ''3'' = JFloat (Finite 3)" "float_of ''4'' = JFloat (Finite 4)"
    "float_of ''5'' = JFloat (Finite 5)"
    by (simp_all add: float_of_def digits_val_def code_of_def)
  have pl: "plain ''a''" "plain ''s''" "plain ''k''" "plain ''n''" "plain ''x''" "plain ''yz''"
    by code_simp+
  have ne: "c_str ''a'' \<noteq> ''s''" "c_str ''a'' \<noteq> ''k''" "c_str ''s'' \<noteq> ''k''"
    "c_str ''a'' \<noteq> ''n''" "c_str ''s'' \<noteq> ''n''" "c_str ''k'' \<noteq> ''n''"
    by code_simp+
  have m0: "scans_as (KeyValue ''a'' LFloat) ''1'' (JFloat (Finite 1))"
    using scans_as_digits[OF dg(1), of "KeyValue ''a'' LFloat"] by (simp add: KeyValue_def fo)
  have m3: "scans_as (KeyValue ''a'' LFloat) ''3'' (JFloat (Finite 3))"
    using scans_as_digits[OF dg(3), of "KeyValue ''a'' LFloat"] by (simp add: KeyValue_def fo)
  have m2: "scans_as (KeyValue ''s'' LString) ([CHR 0x22] @ ''x'' @ [CHR 0x22]) (JString ''x'')"
    using scans_as_plain_string[OF pl(5), of "KeyValue ''s'' LString"] by (simp add: KeyValue_def)
  have m6: "scans_as (KeyValue ''s'' LString) ([CHR 0x22] @ ''yz'' @ [CHR 0x22]) (JString ''yz'')"
    using scans_as_plain_string[OF pl(6), of "KeyValue ''s'' LString"] by (simp add: KeyValue_def)
  have m1: "scans_as (KeyContainerValue ''k'' (ArrayParser LFloat ParseArray_init)) ''[1]''
              (JArray [JFloat (Finite 1)])"
    using scans_as_float_array[of "[''1'']" "KeyContainerValue ''k'' (ArrayParser LFloat ParseArray_init)"]
    by (simp add: KeyContainerValue_def dg fo array_text_def)
  have m5: "scans_as (KeyContainerValue ''k'' (ArrayParser LFloat ParseArray_init)) ''[2,3]''
              (JArray [JFloat (Finite 2), JFloat (Finite 3)])"
    using scans_as_float_array[of "[''2'', ''3'']"
        "KeyContainerValue ''k'' (ArrayParser LFloat ParseArray_init)"]
    by (simp add: KeyContainerValue_def dg fo array_text_def)
  have m4: "scans_as (RequiredKeyContainerValue ''n''
                (ContainerArrayParser LFloat ParseContainerArray_init)) ''[[1]]''
              (JArray [JArray [JFloat (Finite 1)]])"
    using scans_as_nested_array[of "[[''1'']]"
        "RequiredKeyContainerValue ''n'' (ContainerArrayParser LFloat ParseContainerArray_init)"]
    by (simp add: RequiredKeyContainerValue_def dg fo array_text_def nested_text_def array_of_def)
  have m7: "scans_as (RequiredKeyContainerValue ''n''
                (ContainerArrayParser LFloat ParseContainerArray_init)) ''[[4],[5]]''
              (JArray [JArray [JFloat (Finite 4)], JArray [JFloat (Finite 5)]])"
    using scans_as_nested_array[of "[[''4''], [''5'']]"
        "RequiredKeyContainerValue ''n'' (ContainerArrayParser LFloat ParseContainerArray_init)"]
    by (simp add: RequiredKeyContainerValue_def dg fo array_text_def nested_text_def array_of_def)
  have k: "Key (KeyValue ''a'' LFloat) = ''a''" "Key (KeyValue ''s'' LString) = ''s''"
    "Key (KeyContainerValue ''k'' (ArrayParser LFloat ParseArray_init)) = ''k''"
    "Key (RequiredKeyContainerValue ''n'' (ContainerArrayParser LFloat ParseContainerArray_init)) = ''n''"
    by (simp_all add: KeyValue_def KeyContainerValue_def RequiredKeyContainerValue_def)
  have u: "[0 ..< 1] = [0]" "[0 ..< 2] = [0, 1]" "[0 ..< 3] = [0, 1, 2]"
    by (simp_all add: upt_rec)
  have m: "list_all (member_ok example_schema) example_members"
    unfolding example_schema_def example_members_def member_ok_def
    using m0 m1 m2 m3 m4 m5 m6 m7 by (simp add: k u pl ne)
  have q: "list_all (\<lambda>j. Required (example_schema ! j) \<longrightarrow> last_value j example_members \<noteq> None)
        [0 ..< length example_schema]"
    by code_simp
  have ot: "object_text example_schema example_members
      = [CHR ''{'', CHR 0x22] @ ''a'' @ [CHR 0x22] @ '':1,'' @ [CHR 0x22] @ ''k'' @ [CHR 0x22]
          @ '':[1],'' @ [CHR 0x22] @ ''s'' @ [CHR 0x22] @ '':'' @ [CHR 0x22] @ ''x'' @ [CHR 0x22]
          @ '','' @ [CHR 0x22] @ ''a'' @ [CHR 0x22] @ '':3,'' @ [CHR 0x22] @ ''n'' @ [CHR 0x22]
          @ '':[[1]],'' @ [CHR 0x22] @ ''k'' @ [CHR 0x22] @ '':[2,3],'' @ [CHR 0x22] @ ''s''
          @ [CHR 0x22] @ '':'' @ [CHR 0x22] @ ''yz'' @ [CHR 0x22] @ '','' @ [CHR 0x22] @ ''n''
          @ [CHR 0x22] @ '':[[4],[5]]}''"
    by code_simp
  have de: "decoded example_schema example_members
      = [\<lparr>vs_given = True, vs_value = JFloat (Finite 3)\<rparr>,
         \<lparr>vs_given = True, vs_value = JString ''yz''\<rparr>,
         \<lparr>vs_given = True, vs_value = JArray [JFloat (Finite 2), JFloat (Finite 3)]\<rparr>,
         \<lparr>vs_given = True,
          vs_value = JArray [JArray [JFloat (Finite 4)], JArray [JFloat (Finite 5)]]\<rparr>]"
    by code_simp
  have l: "length (object_text example_schema example_members) = 72" by code_simp
  from C8_repeated_key_last_wins[where pool = ParserPool_init and kvs = example_schema
      and ms = example_members, THEN conjunct1] r m q
  have "\<exists>pool'. ParseObject_Scan (object_text example_schema example_members)
                 (ParseObject_init example_schema) ParserPool_init
               = Inr (Some (length (object_text example_schema example_members)),
                      (ParseObject_init example_schema)
                        \<lparr>po_out := decoded example_schema example_members\<rparr>, pool')"
    by blast
  then have e: "\<exists>pool'. ParseObject_Scan (object_text example_schema example_members)
                 (ParseObject_init example_schema) ParserPool_init
               = Inr (Some 72,
                      (ParseObject_init example_schema)
                        \<lparr>po_out := decoded example_schema example_members\<rparr>, pool')"
    unfolding l .
  from r m q ot de e show ?thesis by (intro conjI)
qed

end
